theory Spec2Isabelle
  imports Complex_Main "HOL-Library.Word" "HOL-Library.Multiset" "HOL-Library.Sublist"
begin

section \<open>The capture context: offscreen.js\<close>

text \<open>
  The offscreen document owns the \<^verbatim>\<open>MediaRecorder\<close>, the buffer \<^verbatim>\<open>audioChunks\<close>, the
  interval that samples the loudness every 200 ms and the timeout \<^verbatim>\<open>speechTimeout\<close>.
  Its top-level variables become the fields of a record; every callback and message
  handler becomes a function from state to state. What reaches the document from outside
  (a message, a run of the interval callback with the loudness it measured, the encoder
  producing bytes, time passing) is an event.

  A Blob is the list of its bytes. The payload of \<^verbatim>\<open>processAudioChunk\<close> is the Blob built
  from \<^verbatim>\<open>audioChunks\<close>: the source re-encodes it as base64 WAV, a function of that Blob
  which decodes audio and is not modelled.
\<close>

type_synonym blob = "8 word list"

datatype recorder_state = Inactive | Recording | Paused

datatype offscreen_message = ProcessAudioChunk blob | RecordingError string

record offscreen =
  mediaRecorder :: "recorder_state option"
  gathered :: blob
  audioChunks :: "blob list"
  speechTimeout :: "nat option"
  silenceCheckInterval :: bool
  closed :: bool
  sent :: "offscreen_message list"

text \<open>
  \<^item> \<open>mediaRecorder\<close> is \<open>None\<close> while the variable is undefined, and otherwise the
    recorder's \<^verbatim>\<open>state\<close>;
  \<^item> \<open>gathered\<close> is what the recorder has encoded since its last \<^verbatim>\<open>start()\<close>; it is
    handed to \<^verbatim>\<open>ondataavailable\<close> when the recorder stops (\<^verbatim>\<open>start()\<close> is called
    without a timeslice);
  \<^item> \<open>speechTimeout\<close> is \<open>Some r\<close> while the timeout is pending, \<open>r\<close> the milliseconds
    left until its callback runs;
  \<^item> \<open>closed\<close> holds after \<^verbatim>\<open>window.close()\<close>;
  \<^item> \<open>sent\<close> lists the messages posted with \<^verbatim>\<open>chrome.runtime.sendMessage\<close>.
\<close>

definition SILENCE_THRESHOLD :: real where
  "SILENCE_THRESHOLD = - 50"

definition SPEECH_TIMEOUT :: nat where
  "SPEECH_TIMEOUT = 1500"

definition SAMPLE_PERIOD :: nat where
  "SAMPLE_PERIOD = 200"

definition fresh :: offscreen where
  "fresh = \<lparr>mediaRecorder = None, gathered = [], audioChunks = [], speechTimeout = None,
     silenceCheckInterval = False, closed = False, sent = []\<rparr>"

subsection \<open>The recorder and its two handlers\<close>

definition ondataavailable :: "blob \<Rightarrow> offscreen \<Rightarrow> offscreen" where
  "ondataavailable d st = (if 0 < length d then st\<lparr>audioChunks := audioChunks st @ [d]\<rparr> else st)"

definition onstop :: "offscreen \<Rightarrow> offscreen" where
  "onstop st =
     (if length (audioChunks st) = 0 then st
      else st\<lparr>sent := sent st @ [ProcessAudioChunk (concat (audioChunks st))],
              audioChunks := []\<rparr>)"

text \<open>
  \<^verbatim>\<open>MediaRecorder.start()\<close>, \<^verbatim>\<open>pause()\<close>, \<^verbatim>\<open>resume()\<close> and \<^verbatim>\<open>stop()\<close>. Stopping a
  recorder that is recording or paused makes it inactive, delivers what it gathered to
  \<^verbatim>\<open>ondataavailable\<close> and then runs \<^verbatim>\<open>onstop\<close>; stopping an inactive one does nothing.
\<close>

definition recorder_start :: "offscreen \<Rightarrow> offscreen" where
  "recorder_start st = st\<lparr>mediaRecorder := Some Recording, gathered := []\<rparr>"

definition recorder_pause :: "offscreen \<Rightarrow> offscreen" where
  "recorder_pause st = st\<lparr>mediaRecorder := Some Paused\<rparr>"

definition recorder_resume :: "offscreen \<Rightarrow> offscreen" where
  "recorder_resume st = st\<lparr>mediaRecorder := Some Recording\<rparr>"

definition recorder_stop :: "offscreen \<Rightarrow> offscreen" where
  "recorder_stop st =
     (if mediaRecorder st = Some Recording \<or> mediaRecorder st = Some Paused
      then onstop (ondataavailable (gathered st)
             (st\<lparr>mediaRecorder := Some Inactive, gathered := []\<rparr>))
      else st)"

subsection \<open>startSilenceDetection: the interval callback and the timeout callback\<close>

definition interval_callback :: "real \<Rightarrow> offscreen \<Rightarrow> offscreen" where
  "interval_callback db st =
     (if mediaRecorder st = Some Paused then st
      else if db > SILENCE_THRESHOLD then
        (let st1 = (if mediaRecorder st = Some Inactive then recorder_start st else st)
         in (if speechTimeout st1 \<noteq> None then st1\<lparr>speechTimeout := None\<rparr> else st1))
      else
        (if mediaRecorder st = Some Recording \<and> speechTimeout st = None
         then st\<lparr>speechTimeout := Some SPEECH_TIMEOUT\<rparr>
         else st))"

definition timeout_callback :: "offscreen \<Rightarrow> offscreen" where
  "timeout_callback st = (recorder_stop st)\<lparr>speechTimeout := None\<rparr>"

subsection \<open>startRecording, stopRecording and handleMessages\<close>

datatype action =
    startOffscreenRecording "string option"
  | stopOffscreenRecording
  | pauseOffscreenRecording
  | resumeOffscreenRecording

text \<open>
  The argument of \<open>startOffscreenRecording\<close> is what \<^verbatim>\<open>getUserMedia\<close> does for this
  request: \<open>None\<close> when it yields a stream, \<open>Some name\<close> when it throws an error of that
  name. A successful start installs a new inactive recorder and starts the interval.
\<close>

definition startRecording :: "string option \<Rightarrow> offscreen \<Rightarrow> offscreen" where
  "startRecording media st =
     (if mediaRecorder st \<noteq> None \<and> mediaRecorder st \<noteq> Some Inactive then st
      else (case media of
          None \<Rightarrow> st\<lparr>mediaRecorder := Some Inactive, gathered := [],
                      silenceCheckInterval := True\<rparr>
        | Some name \<Rightarrow>
            st\<lparr>sent := sent st @ [RecordingError
              (if name = ''NotAllowedError''
               then ''Microphone permission was denied. Please allow it in your browser settings and try again.''
               else ''An unknown error occurred while starting the recording.'')]\<rparr>))"

text \<open>
  \<^verbatim>\<open>stopRecording\<close> clears the interval and the timeout, stops a recorder that is not
  inactive and closes the document. The handlers that \<^verbatim>\<open>stop()\<close> triggers are taken to
  run before the document is gone.
\<close>

definition stopRecording :: "offscreen \<Rightarrow> offscreen" where
  "stopRecording st =
     (let st1 = st\<lparr>silenceCheckInterval := False, speechTimeout := None\<rparr>;
          st2 = (if mediaRecorder st1 \<noteq> None \<and> mediaRecorder st1 \<noteq> Some Inactive
                 then recorder_stop st1 else st1)
      in st2\<lparr>closed := True\<rparr>)"

fun handleMessages :: "action \<Rightarrow> offscreen \<Rightarrow> offscreen" where
  "handleMessages (startOffscreenRecording media) st = startRecording media st"
| "handleMessages stopOffscreenRecording st = stopRecording st"
| "handleMessages pauseOffscreenRecording st =
     (if mediaRecorder st = Some Recording then recorder_pause st else st)"
| "handleMessages resumeOffscreenRecording st =
     (if mediaRecorder st = Some Paused then recorder_resume st else st)"

subsection \<open>Events and runs\<close>

text \<open>
  \<^item> \<open>Message a\<close>: the message \<open>a\<close> arrives;
  \<^item> \<open>Tick db\<close>: the interval callback runs and measures the loudness \<open>db\<close>;
  \<^item> \<open>Encoded d\<close>: the encoder produces the bytes \<open>d\<close>, kept only by a recorder that is
    recording;
  \<^item> \<open>Elapse ms\<close>: \<open>ms\<close> milliseconds pass, and a timeout due within them runs.
  A closed document reacts to nothing.
\<close>

datatype event = Message action | Tick real | Encoded blob | Elapse nat

fun react :: "event \<Rightarrow> offscreen \<Rightarrow> offscreen" where
  "react (Message a) st = handleMessages a st"
| "react (Tick db) st = (if silenceCheckInterval st then interval_callback db st else st)"
| "react (Encoded d) st =
     (if mediaRecorder st = Some Recording then st\<lparr>gathered := gathered st @ d\<rparr> else st)"
| "react (Elapse ms) st =
     (case speechTimeout st of
        None \<Rightarrow> st
      | Some r \<Rightarrow> if r \<le> ms then timeout_callback st else st\<lparr>speechTimeout := Some (r - ms)\<rparr>)"

definition step :: "event \<Rightarrow> offscreen \<Rightarrow> offscreen" where
  "step e st = (if closed st then st else react e st)"

fun run :: "event list \<Rightarrow> offscreen \<Rightarrow> offscreen" where
  "run [] st = st"
| "run (e # es) st = run es (step e st)"

text \<open>
  One sample of the silence-detection loop: the callback measures \<open>db\<close>, and during the
  200 ms until the next sample the encoder produces \<open>d\<close>.
\<close>

definition period :: "real \<times> blob \<Rightarrow> event list" where
  "period s = [Tick (fst s), Encoded (snd s), Elapse SAMPLE_PERIOD]"

definition feed :: "(real \<times> blob) list \<Rightarrow> offscreen \<Rightarrow> offscreen" where
  "feed xs st = run (concat (map period xs)) st"

definition engine_init :: offscreen where
  "engine_init = handleMessages (startOffscreenRecording None) fresh"

definition chunks :: "offscreen \<Rightarrow> blob list" where
  "chunks st = concat (map (\<lambda>m. case m of ProcessAudioChunk b \<Rightarrow> [b] | RecordingError e \<Rightarrow> []) (sent st))"

subsection \<open>What the claims about the capture context are stated with\<close>

text \<open>The classification of one sample, as the interval callback makes it.\<close>

definition loud :: "real \<Rightarrow> bool" where
  "loud db = (db > SILENCE_THRESHOLD)"

text \<open>
  The number of places in a sequence of loudness samples where a speech sample is followed
  by a run of silence samples that lasts at least the hangover, each sample standing for
  one period of 200 ms. This counts from the samples alone, without the engine.
\<close>

fun hangovers :: "real list \<Rightarrow> nat" where
  "hangovers [] = 0"
| "hangovers (d # ds) =
     (if loud d \<and> SPEECH_TIMEOUT \<le> SAMPLE_PERIOD * length (takeWhile (\<lambda>x. \<not> loud x) ds)
      then 1 else 0) + hangovers ds"

definition silent_prefix :: "real list \<Rightarrow> nat" where
  "silent_prefix ds = length (takeWhile (\<lambda>x. \<not> loud x) ds)"

text \<open>Invariants of the engine: the buffer, the idle engine, the speaking engine.\<close>

definition buffer_ok :: "offscreen \<Rightarrow> bool" where
  "buffer_ok st = ((\<forall>c\<in>set (audioChunks st). c \<noteq> []) \<and> (\<forall>b\<in>set (chunks st). b \<noteq> []))"

definition idle_inv :: "offscreen \<Rightarrow> bool" where
  "idle_inv st = (mediaRecorder st = Some Inactive \<and> speechTimeout st = None \<and>
     audioChunks st = [] \<and> silenceCheckInterval st \<and> \<not> closed st)"

definition speaking_inv :: "nat \<Rightarrow> offscreen \<Rightarrow> bool" where
  "speaking_inv k st = (mediaRecorder st = Some Recording \<and> gathered st \<noteq> [] \<and>
     audioChunks st = [] \<and> silenceCheckInterval st \<and> \<not> closed st \<and>
     SAMPLE_PERIOD * k < SPEECH_TIMEOUT \<and>
     speechTimeout st = (if k = 0 then None else Some (SPEECH_TIMEOUT - SAMPLE_PERIOD * k)))"

text \<open>
  The scenario of the specification: thirteen samples, the encoder producing one byte in
  each period.
\<close>

definition scenario :: "(real \<times> blob) list" where
  "scenario = map (\<lambda>d. (d, [1]))
     [- 60, - 60, - 30, - 30, - 30, - 60, - 60, - 60, - 60, - 60, - 60, - 60, - 60]"

text \<open>
  Speech, then one silence sample that starts the hangover timeout, then the pause
  command.
\<close>

definition pause_during_hangover :: "event list" where
  "pause_during_hangover =
     [Tick (- 30), Encoded [1], Elapse 200, Tick (- 60), Encoded [2], Elapse 200,
      Message pauseOffscreenRecording]"

text \<open>A document is loaded, starts capturing, hears speech and is stopped.\<close>

definition stop_while_speaking :: "event list" where
  "stop_while_speaking =
     [Message (startOffscreenRecording None), Tick (- 30), Encoded [1, 2], Elapse 200,
      Message stopOffscreenRecording]"

section \<open>Values of the JavaScript side\<close>

text \<open>
  What \<^verbatim>\<open>response.json()\<close> yields. JavaScript's \<^verbatim>\<open>undefined\<close> is \<open>None\<close> of
  \<open>json option\<close>. A number is held as the text that JavaScript's \<^verbatim>\<open>String\<close> prints for
  it (404, 0.5, 1e+21): the code does nothing with a number but test whether it is truthy
  and print it, and a number is falsy exactly when it is zero, which prints as 0.
\<close>

datatype json = JNull | JBool bool | JNum string | JStr string | JArr "json list"
  | JObj "(string \<times> json) list"

fun truthy :: "json \<Rightarrow> bool" where
  "truthy JNull = False"
| "truthy (JBool b) = b"
| "truthy (JNum n) = (n \<noteq> ''0'')"
| "truthy (JStr s) = (s \<noteq> [])"
| "truthy (JArr xs) = True"
| "truthy (JObj kvs) = True"

text \<open>
  \<open>property k v\<close> is \<^verbatim>\<open>v.k\<close> for a value \<open>v\<close> that is neither null nor undefined, for
  the names the code reads (candidates, content, parts, text, error, message): only an
  object can have them; of a repeated key the last one counts. \<open>index0 v\<close> is \<^verbatim>\<open>v[0]\<close>.
  \<open>chain f v\<close> is the optional chaining \<^verbatim>\<open>v?.f\<close>.
\<close>

fun property :: "string \<Rightarrow> json \<Rightarrow> json option" where
  "property k (JObj kvs) = map_of (rev kvs) k"
| "property k v = None"

fun index0 :: "json \<Rightarrow> json option" where
  "index0 (JArr xs) = (case xs of [] \<Rightarrow> None | x # _ \<Rightarrow> Some x)"
| "index0 (JStr s) = (case s of [] \<Rightarrow> None | c # _ \<Rightarrow> Some (JStr [c]))"
| "index0 (JObj kvs) = map_of (rev kvs) ''0''"
| "index0 v = None"

definition chain :: "(json \<Rightarrow> json option) \<Rightarrow> json option \<Rightarrow> json option" where
  "chain f v = (case v of None \<Rightarrow> None | Some JNull \<Rightarrow> None | Some x \<Rightarrow> f x)"

text \<open>\<^verbatim>\<open>result?.candidates?.[0]?.content?.parts?.[0]?.text\<close>\<close>

definition transcript_of :: "json option \<Rightarrow> json option" where
  "transcript_of result =
     chain (property ''text'') (chain index0 (chain (property ''parts'')
       (chain (property ''content'') (chain index0 (chain (property ''candidates'') result)))))"

definition well_formed :: "json option \<Rightarrow> bool" where
  "well_formed result = (case transcript_of result of None \<Rightarrow> False | Some t \<Rightarrow> truthy t)"

fun decimal :: "nat \<Rightarrow> string" where
  "decimal n = (if n < 10 then [''0123456789'' ! n]
     else decimal (n div 10) @ [''0123456789'' ! (n mod 10)])"

declare decimal.simps [simp del]

fun join :: "string \<Rightarrow> string list \<Rightarrow> string" where
  "join sep [] = []"
| "join sep [x] = x"
| "join sep (x # y # ys) = x @ sep @ join sep (y # ys)"

text \<open>The conversion to a string that \<^verbatim>\<open>new Error(v)\<close> and a template literal apply.\<close>

fun js_String :: "json \<Rightarrow> string" where
  "js_String JNull = ''null''"
| "js_String (JBool b) = (if b then ''true'' else ''false'')"
| "js_String (JNum n) = n"
| "js_String (JStr s) = s"
| "js_String (JArr xs) = join '','' (map (\<lambda>x. if x = JNull then [] else js_String x) xs)"
| "js_String (JObj kvs) = ''[object Object]''"

section \<open>The coordination context: the service worker\<close>

type_synonym base64 = string

datatype audio_source = tab | mic

datatype session_state = idle | recording | paused

record entry =
  timestamp :: int
  entry_text :: json
  source :: audio_source

text \<open>
  \<^verbatim>\<open>chrome.storage.local\<close>: one field for each key the code writes, \<open>None\<close> while the key
  is absent.
\<close>

record storage =
  key_recordingState :: "session_state option"
  key_startTime :: "int option"
  key_pausedTime :: "int option"
  key_secondsElapsed :: "nat option"
  key_transcript :: "entry list option"
  key_offlineAudioQueue :: "base64 list option"

datatype runtime_message =
    StartOffscreenRecording "string option" audio_source
  | StopOffscreenRecording
  | PauseOffscreenRecording
  | ResumeOffscreenRecording
  | RecordingStopped
  | ErrorNotice string
  | UpdateTranscript json audio_source
  | StatusUpdate string

text \<open>
  What the service worker does to the outside, in the order it does it: a provider
  function is called, a request is sent as the attempt of that number, the back-off waits
  so many milliseconds, a message is posted, the queue's key is removed from storage.
  \<open>Dispatched\<close> and \<open>Settled\<close> mark the call of \<^verbatim>\<open>transcribeAudio\<close> for a chunk and
  its return.
\<close>

datatype effect =
    Invoked string
  | Fetched nat
  | Slept nat
  | Posted runtime_message
  | Removed
  | Dispatched base64
  | Settled base64

record background =
  capturedTabId :: "nat option"
  apiKey :: "string option"
  audioSource :: audio_source
  runtime_id :: bool
  local :: storage
  log :: "effect list"

text \<open>
  \<open>runtime_id\<close> says that \<^verbatim>\<open>chrome.runtime.id\<close> is defined, which the code tests before
  it posts a message.
\<close>

definition post :: "runtime_message \<Rightarrow> background \<Rightarrow> background" where
  "post m st = st\<lparr>log := log st @ [Posted m]\<rparr>"

definition updateStatus :: "string \<Rightarrow> background \<Rightarrow> background" where
  "updateStatus status st = (if runtime_id st then post (StatusUpdate status) st else st)"

definition bg_stopRecording :: "background \<Rightarrow> background" where
  "bg_stopRecording st =
     (if runtime_id st then
        (let st1 = post StopOffscreenRecording st;
             st2 = st1\<lparr>local := (local st1)\<lparr>key_recordingState := Some idle\<rparr>\<rparr>;
             st3 = post RecordingStopped st2
         in st3\<lparr>capturedTabId := None\<rparr>)
      else st)"

definition handleError :: "string \<Rightarrow> background \<Rightarrow> background" where
  "handleError message st =
     (if runtime_id st then bg_stopRecording (post (ErrorNotice message) st) else st)"

subsection \<open>The providers\<close>

text \<open>
  What one \<^verbatim>\<open>fetch\<close> does: it rejects with an error of some message, or yields a
  response with a status and a body that \<^verbatim>\<open>response.json()\<close> parses or rejects with a
  message. A network tells it for the URL, the audio in the payload and the number of the
  attempt.
\<close>

datatype response_body = Unparsable string | Parsed json

datatype fetch_result = Rejected string | Response nat response_body

type_synonym network = "string \<Rightarrow> base64 \<Rightarrow> nat \<Rightarrow> fetch_result"

definition ok :: "nat \<Rightarrow> bool" where
  "ok status = (200 \<le> status \<and> status \<le> 299)"

text \<open>The body of the \<^verbatim>\<open>try\<close> block of \<^verbatim>\<open>callGeminiApi\<close>: \<open>Inl\<close> is the message of the error thrown.\<close>

definition attempt :: "fetch_result \<Rightarrow> string + json" where
  "attempt r =
     (case r of
        Rejected m \<Rightarrow> Inl m
      | Response status body \<Rightarrow>
          if \<not> ok status then
            (case body of
               Unparsable m \<Rightarrow> Inl m
             | Parsed errorBody \<Rightarrow>
                 (case chain (property ''message'') (chain (property ''error'') (Some errorBody)) of
                    None \<Rightarrow> Inl (''HTTP Error '' @ decimal status)
                  | Some m \<Rightarrow> Inl (if truthy m then js_String m else ''HTTP Error '' @ decimal status)))
          else (case body of Unparsable m \<Rightarrow> Inl m | Parsed v \<Rightarrow> Inr v))"

text \<open>
  The loop of \<^verbatim>\<open>callGeminiApi\<close> from attempt \<open>i\<close> on. A loop that ends without an
  attempt returns \<^verbatim>\<open>undefined\<close>.
\<close>

function attempts_from ::
  "(nat \<Rightarrow> fetch_result) \<Rightarrow> nat \<Rightarrow> nat \<Rightarrow> nat \<Rightarrow> effect list \<times> (string + json option)" where
  "attempts_from fetch retries delay i =
     (if i < retries then
        (case attempt (fetch i) of
           Inr v \<Rightarrow> ([Fetched i], Inr (Some v))
         | Inl e \<Rightarrow>
             if i = retries - 1 then ([Fetched i], Inl e)
             else (let (eff, r) = attempts_from fetch retries delay (Suc i)
                   in (Fetched i # Slept (delay * 2 ^ i) # eff, r)))
      else ([], Inr None))"
  by pat_completeness auto
termination
  by (relation "measure (\<lambda>(fetch, retries, delay, i). retries - i)") auto

declare attempts_from.simps [simp del]

definition API_URL :: "string option \<Rightarrow> string" where
  "API_URL key = ''https://generativelanguage.googleapis.com/v1beta/models/gemini-1.5-flash-latest:generateContent?key=''
     @ (case key of None \<Rightarrow> ''null'' | Some k \<Rightarrow> k)"

type_synonym service = "base64 \<Rightarrow> string option \<Rightarrow> effect list \<times> (string + json option)"

definition callGeminiApi_with :: "network \<Rightarrow> nat \<Rightarrow> nat \<Rightarrow> service" where
  "callGeminiApi_with net retries delay audioBase64 key =
     attempts_from (net (API_URL key) audioBase64) retries delay 0"

definition callGeminiApi :: "network \<Rightarrow> service" where
  "callGeminiApi net = callGeminiApi_with net 3 1000"

definition callWhisperApi :: service where
  "callWhisperApi audioBase64 key = ([], Inl ''Whisper API not implemented.'')"

definition callDeepgramApi :: service where
  "callDeepgramApi audioBase64 key = ([], Inl ''Deepgram API not implemented.'')"

subsection \<open>transcribeAudio\<close>

datatype outcome = Transcribed json | Failed string

text \<open>
  The loop over the services, each with its \<^verbatim>\<open>name\<close>; \<open>errorMessages\<close> is the list
  collected so far. The result says how the function ended.
\<close>

fun try_services ::
  "(string \<times> service) list \<Rightarrow> base64 \<Rightarrow> string list \<Rightarrow> background \<Rightarrow> outcome \<times> background" where
  "try_services [] audioBase64 errorMessages st =
     (let finalError = ''Transcription failed. Details: '' @ join ''; '' errorMessages
      in (Failed finalError, handleError finalError st))"
| "try_services ((name, service) # rest) audioBase64 errorMessages st =
     (let (eff, r) = service audioBase64 (apiKey st);
          st1 = st\<lparr>log := log st @ Invoked name # eff\<rparr>
      in (case r of
            Inl message \<Rightarrow>
              try_services rest audioBase64 (errorMessages @ [name @ '': '' @ message]) st1
          | Inr result \<Rightarrow>
              (case transcript_of result of
                 None \<Rightarrow>
                   try_services rest audioBase64
                     (errorMessages @ [name @ '': Received an empty or invalid response.'']) st1
               | Some t \<Rightarrow>
                   if truthy t then
                     (Transcribed t,
                      updateStatus ''Recording''
                        (if runtime_id st1 then post (UpdateTranscript t (audioSource st1)) st1
                         else st1))
                   else
                     try_services rest audioBase64
                       (errorMessages @ [name @ '': Received an empty or invalid response.'']) st1)))"

definition services :: "network \<Rightarrow> (string \<times> service) list" where
  "services net =
     [(''callGeminiApi'', callGeminiApi net), (''callWhisperApi'', callWhisperApi),
      (''callDeepgramApi'', callDeepgramApi)]"

definition transcribeAudio :: "network \<Rightarrow> base64 \<Rightarrow> background \<Rightarrow> outcome \<times> background" where
  "transcribeAudio net audioBase64 st =
     (let (out, st1) = try_services (services net) audioBase64 []
                         (st\<lparr>log := log st @ [Dispatched audioBase64]\<rparr>)
      in (out, st1\<lparr>log := log st1 @ [Settled audioBase64]\<rparr>))"

subsection \<open>The offline queue\<close>

definition addToOfflineQueue :: "base64 \<Rightarrow> background \<Rightarrow> background" where
  "addToOfflineQueue audioBase64 st =
     (let queue = (case key_offlineAudioQueue (local st) of None \<Rightarrow> [] | Some q \<Rightarrow> q)
      in st\<lparr>local := (local st)\<lparr>key_offlineAudioQueue := Some (queue @ [audioBase64])\<rparr>\<rparr>)"

text \<open>\<open>onLine\<close> is \<^verbatim>\<open>navigator.onLine\<close> when the chunk arrives.\<close>

definition handleAudioChunk :: "bool \<Rightarrow> network \<Rightarrow> base64 \<Rightarrow> background \<Rightarrow> background" where
  "handleAudioChunk onLine net audioBase64 st =
     (if \<not> onLine then addToOfflineQueue audioBase64 (updateStatus ''Offline. Buffering audio...'' st)
      else snd (transcribeAudio net audioBase64 (updateStatus ''Transcribing...'' st)))"

text \<open>
  What a state has logged beyond an earlier one.
\<close>

definition since :: "background \<Rightarrow> background \<Rightarrow> effect list" where
  "since st st' = drop (length (log st)) (log st')"

text \<open>
  The handler of the \<^verbatim>\<open>online\<close> event. The source starts one \<^verbatim>\<open>transcribeAudio\<close> for
  each entry (\<^verbatim>\<open>queue.map\<close>) and waits for all of them (\<^verbatim>\<open>Promise.all\<close>), so the
  dispatches run interleaved and settle in the order in which they complete. Each
  dispatch does what \<^verbatim>\<open>transcribeAudio\<close> does for its entry, entry \<open>i\<close> meeting the
  network \<open>nets i\<close>, and does it in its own order; a schedule says whose turn it is.

  \<open>interleave sched ts\<close> merges the effect sequences \<open>ts\<close>: for each number in \<open>sched\<close>
  the dispatch of that number does its next effect, if it has one left, and when the
  schedule is used up the dispatches finish one after the other. Every merge that keeps
  the order within each dispatch is the merge of some schedule, and the orders in which the
  source can run the dispatches are among them.

  \<open>apply_effect\<close> does one effect to the state: it logs it, and with the two messages
  that \<^verbatim>\<open>stopRecording\<close> posts it persists the state idle and forgets the captured tab,
  as \<^verbatim>\<open>stopRecording\<close> does right after them.
\<close>

fun interleave :: "nat list \<Rightarrow> 'a list list \<Rightarrow> 'a list" where
  "interleave [] ts = concat ts"
| "interleave (i # sched) ts =
     (if i < length ts then
        (case ts ! i of
           [] \<Rightarrow> interleave sched ts
         | e # es \<Rightarrow> e # interleave sched (ts[i := es]))
      else interleave sched ts)"

definition apply_effect :: "effect \<Rightarrow> background \<Rightarrow> background" where
  "apply_effect e st =
     (let st1 = st\<lparr>log := log st @ [e]\<rparr>
      in if e = Posted StopOffscreenRecording
         then st1\<lparr>local := (local st1)\<lparr>key_recordingState := Some idle\<rparr>\<rparr>
         else if e = Posted RecordingStopped then st1\<lparr>capturedTabId := None\<rparr>
         else st1)"

text \<open>
  The merges of effect sequences that keep the order within each sequence: all are
  finished, or some dispatch that has an effect left does it next.
\<close>

inductive interleaving :: "'a list list \<Rightarrow> 'a list \<Rightarrow> bool" where
  finished: "concat ts = [] \<Longrightarrow> interleaving ts []"
| next_of: "i < length ts \<Longrightarrow> ts ! i = e # es \<Longrightarrow> interleaving (ts[i := es]) l \<Longrightarrow>
     interleaving ts (e # l)"

definition processOfflineQueue :: "nat list \<Rightarrow> (nat \<Rightarrow> network) \<Rightarrow> background \<Rightarrow> background" where
  "processOfflineQueue sched nets st =
     (let queue = (case key_offlineAudioQueue (local st) of None \<Rightarrow> [] | Some q \<Rightarrow> q)
      in if length queue = 0 then st
         else
           (let st1 = updateStatus (''Syncing '' @ decimal (length queue) @ '' offline chunk(s)...'') st;
                promises = map (\<lambda>i. since st1 (snd (transcribeAudio (nets i) (queue ! i) st1)))
                             [0..<length queue];
                st2 = fold apply_effect (interleave sched promises) st1;
                st3 = st2\<lparr>local := (local st2)\<lparr>key_offlineAudioQueue := None\<rparr>,
                         log := log st2 @ [Removed]\<rparr>
            in updateStatus ''Recording'' st3))"

subsection \<open>startRecording and the message listener\<close>

text \<open>
  What the browser does for one start: \<^verbatim>\<open>setupOffscreenDocument\<close> throws an error of
  some message or not, \<^verbatim>\<open>chrome.tabs.query\<close> finds an active tab or none,
  \<^verbatim>\<open>getMediaStreamId\<close> throws or yields a stream id, and \<^verbatim>\<open>Date.now()\<close>.
\<close>

record start_env =
  setup_failure :: "string option"
  activeTab :: "nat option"
  streamId :: "string + string"
  now :: int

datatype response = Success | Failure string

text \<open>The result is the message of the error that \<^verbatim>\<open>startRecording\<close> rethrows, if any.\<close>

definition bg_startRecording :: "start_env \<Rightarrow> background \<Rightarrow> string option \<times> background" where
  "bg_startRecording env st =
     (let started = (\<lambda>sid st1.
            (None, (post (StartOffscreenRecording sid (audioSource st1)) st1)
               \<lparr>local := (local st1)\<lparr>key_recordingState := Some recording,
                   key_startTime := Some (now env), key_transcript := Some []\<rparr>\<rparr>));
          thrown = (\<lambda>m st1. (Some m, handleError m st1))
      in (case setup_failure env of
            Some m \<Rightarrow> thrown m st
          | None \<Rightarrow>
              if audioSource st = tab then
                (case activeTab env of
                   None \<Rightarrow> thrown ''Could not find active tab.'' st
                 | Some tabId \<Rightarrow>
                     (let st1 = st\<lparr>capturedTabId := Some tabId\<rparr>
                      in (case streamId env of
                            Inl m \<Rightarrow> thrown m st1
                          | Inr sid \<Rightarrow> started (Some sid) st1)))
              else started None st))"

datatype request =
    startRecording_request "string option" audio_source
  | stopRecording_request
  | pauseRecording_request
  | resumeRecording_request

text \<open>
  The listener of the service worker for the requests of the popup, with the response it
  sends, if it sends one.
\<close>

fun onMessage :: "start_env \<Rightarrow> request \<Rightarrow> background \<Rightarrow> response option \<times> background" where
  "onMessage env (startRecording_request key src) st =
     (case bg_startRecording env (st\<lparr>apiKey := key, audioSource := src\<rparr>) of
        (None, st1) \<Rightarrow> (Some Success, st1)
      | (Some m, st1) \<Rightarrow> (Some (Failure m), st1))"
| "onMessage env stopRecording_request st = (Some Success, bg_stopRecording st)"
| "onMessage env pauseRecording_request st = (None, post PauseOffscreenRecording st)"
| "onMessage env resumeRecording_request st = (None, post ResumeOffscreenRecording st)"

section \<open>The display context: the popup's controls\<close>

record popup =
  recordingState :: session_state
  timerInterval :: bool
  secondsElapsed :: nat
  fullTranscript :: "entry list"
  displayed_error :: "string option"

definition popup_init :: popup where
  "popup_init = \<lparr>recordingState = idle, timerInterval = False, secondsElapsed = 0,
     fullTranscript = [], displayed_error = None\<rparr>"

definition startTimer :: "popup \<Rightarrow> popup" where
  "startTimer p = p\<lparr>timerInterval := True\<rparr>"

definition stopTimer :: "popup \<Rightarrow> popup" where
  "stopTimer p = p\<lparr>timerInterval := False\<rparr>"

text \<open>The callback of the timer, once a second while the timer runs.\<close>

definition timer_callback :: "popup \<Rightarrow> popup" where
  "timer_callback p = (if timerInterval p then p\<lparr>secondsElapsed := secondsElapsed p + 1\<rparr> else p)"

text \<open>
  The popup and the service worker share \<^verbatim>\<open>chrome.storage.local\<close>, the field \<open>local\<close>
  of the service worker's state; a handler of the popup works on both. \<open>t\<close> is the
  popup's \<^verbatim>\<open>Date.now()\<close>.
\<close>

definition handlePauseResume :: "start_env \<Rightarrow> int \<Rightarrow> popup \<times> background \<Rightarrow> popup \<times> background" where
  "handlePauseResume env t sys =
     (let p = fst sys; bg = snd sys
      in if recordingState p = recording then
           (let bg1 = snd (onMessage env pauseRecording_request bg);
                p1 = stopTimer (p\<lparr>recordingState := paused\<rparr>)
            in (p1, bg1\<lparr>local := (local bg1)\<lparr>key_recordingState := Some paused,
                  key_secondsElapsed := Some (secondsElapsed p1), key_pausedTime := Some t\<rparr>\<rparr>))
         else if recordingState p = paused then
           (let bg1 = snd (onMessage env resumeRecording_request bg);
                p1 = startTimer (p\<lparr>recordingState := recording\<rparr>)
            in (p1, bg1\<lparr>local := (local bg1)\<lparr>key_recordingState := Some recording,
                  key_startTime := Some t\<rparr>\<rparr>))
         else (p, bg))"

text \<open>
  The popup's listener for \<^verbatim>\<open>updateTranscript\<close>, which appends an entry and persists the
  transcript; \<open>t\<close> is the time of arrival.
\<close>

definition onUpdateTranscript ::
  "int \<Rightarrow> json \<Rightarrow> audio_source \<Rightarrow> popup \<times> background \<Rightarrow> popup \<times> background" where
  "onUpdateTranscript t transcript src sys =
     (let p = fst sys; bg = snd sys;
          newEntry = \<lparr>timestamp = t, entry_text = transcript, source = src\<rparr>;
          p1 = p\<lparr>fullTranscript := fullTranscript p @ [newEntry]\<rparr>
      in (p1, bg\<lparr>local := (local bg)\<lparr>key_transcript := Some (fullTranscript p1)\<rparr>\<rparr>))"

text \<open>
  The inputs of the start/stop control: the key typed into the form, the source selected
  and whether the microphone permission is granted when asked for.
\<close>

record controls =
  apiKeyInput :: string
  audioSourceSelect :: audio_source
  hasPermission :: bool

definition handleStartStop ::
  "controls \<Rightarrow> start_env \<Rightarrow> int \<Rightarrow> popup \<times> background \<Rightarrow> popup \<times> background" where
  "handleStartStop c env t sys =
     (let p = fst sys; bg = snd sys
      in if recordingState p = idle then
           (if apiKeyInput c = [] then
              (p\<lparr>displayed_error := Some ''Please enter your Gemini API Key.''\<rparr>, bg)
            else if audioSourceSelect c = mic \<and> \<not> hasPermission c then
              (p\<lparr>displayed_error := Some ''Microphone permission is required.''\<rparr>, bg)
            else
              (case onMessage env (startRecording_request (Some (apiKeyInput c)) (audioSourceSelect c)) bg of
                 (Some Success, bg1) \<Rightarrow>
                   (startTimer (p\<lparr>recordingState := recording, secondsElapsed := 0,
                       fullTranscript := [], displayed_error := None\<rparr>),
                    bg1\<lparr>local := (local bg1)\<lparr>key_transcript := Some [], key_startTime := Some t,
                       key_secondsElapsed := Some 0\<rparr>\<rparr>)
               | (Some (Failure e), bg1) \<Rightarrow>
                   (p\<lparr>displayed_error := Some (if e \<noteq> [] then e else ''Failed to start recording.'')\<rparr>, bg1)
               | (None, bg1) \<Rightarrow>
                   (p\<lparr>displayed_error := Some ''Failed to start recording.''\<rparr>, bg1)))
         else
           (let bg1 = snd (onMessage env stopRecording_request bg);
                p1 = stopTimer (p\<lparr>recordingState := idle\<rparr>)
            in (p1, bg1\<lparr>local := (local bg1)\<lparr>key_recordingState := Some idle,
                  key_secondsElapsed := Some (secondsElapsed p1)\<rparr>\<rparr>)))"

subsection \<open>States the claims about the session are evaluated at\<close>

definition bg_init :: background where
  "bg_init = \<lparr>capturedTabId = None, apiKey = None, audioSource = tab, runtime_id = True,
     local = \<lparr>key_recordingState = None, key_startTime = None, key_pausedTime = None,
       key_secondsElapsed = None, key_transcript = None, key_offlineAudioQueue = None\<rparr>,
     log = []\<rparr>"

definition mic_controls :: controls where
  "mic_controls = \<lparr>apiKeyInput = ''k'', audioSourceSelect = mic, hasPermission = True\<rparr>"

definition env_at :: "int \<Rightarrow> start_env" where
  "env_at t = \<lparr>setup_failure = None, activeTab = Some 1, streamId = Inr ''s'', now = t\<rparr>"

text \<open>A session started at time 1000 that has recorded for five seconds.\<close>

definition five_seconds_in :: "popup \<times> background" where
  "five_seconds_in =
     (let sys = handleStartStop mic_controls (env_at 1000) 1000 (popup_init, bg_init)
      in ((timer_callback ^^ 5) (fst sys), snd sys))"

section \<open>What the claims about the service worker and the popup are stated with\<close>

text \<open>
  Projections of a log: the attempts made, the waits, the providers called, the chunks
  whose dispatch began and the chunks whose dispatch returned. A request effect is an
  attempt or a wait.
\<close>

definition fetches :: "effect list \<Rightarrow> nat list" where
  "fetches eff = concat (map (\<lambda>e. case e of Fetched i \<Rightarrow> [i] | _ \<Rightarrow> []) eff)"

definition sleeps :: "effect list \<Rightarrow> nat list" where
  "sleeps eff = concat (map (\<lambda>e. case e of Slept ms \<Rightarrow> [ms] | _ \<Rightarrow> []) eff)"

definition invoked :: "effect list \<Rightarrow> string list" where
  "invoked eff = concat (map (\<lambda>e. case e of Invoked n \<Rightarrow> [n] | _ \<Rightarrow> []) eff)"

definition dispatched :: "effect list \<Rightarrow> base64 list" where
  "dispatched eff = concat (map (\<lambda>e. case e of Dispatched c \<Rightarrow> [c] | _ \<Rightarrow> []) eff)"

definition settled :: "effect list \<Rightarrow> base64 list" where
  "settled eff = concat (map (\<lambda>e. case e of Settled c \<Rightarrow> [c] | _ \<Rightarrow> []) eff)"

fun is_request :: "effect \<Rightarrow> bool" where
  "is_request (Fetched i) = True"
| "is_request (Slept ms) = True"
| "is_request e = False"

text \<open>
  A provider's result is good when it returns a response whose transcript is truthy;
  otherwise \<open>error_of\<close> is the message \<^verbatim>\<open>transcribeAudio\<close> collects for it.
\<close>

definition provider_ok :: "string + json option \<Rightarrow> bool" where
  "provider_ok r = (case r of Inl m \<Rightarrow> False | Inr result \<Rightarrow> well_formed result)"

definition error_of :: "string \<Rightarrow> string + json option \<Rightarrow> string" where
  "error_of name r =
     name @ '': '' @ (case r of Inl m \<Rightarrow> m | Inr result \<Rightarrow> ''Received an empty or invalid response.'')"

definition service_log :: "base64 \<Rightarrow> string option \<Rightarrow> string \<times> service \<Rightarrow> effect list" where
  "service_log a k p = Invoked (fst p) # fst (snd p a k)"

definition aggregated :: "string list \<Rightarrow> string" where
  "aggregated errorMessages = ''Transcription failed. Details: '' @ join ''; '' errorMessages"

definition gemini_failure :: "network \<Rightarrow> base64 \<Rightarrow> string option \<Rightarrow> string" where
  "gemini_failure net a k =
     aggregated [error_of ''callGeminiApi'' (snd (callGeminiApi net a k)),
       ''callWhisperApi: Whisper API not implemented.'',
       ''callDeepgramApi: Deepgram API not implemented.'']"

text \<open>The queue as the code reads it: empty while the key is absent.\<close>

definition backlog :: "background \<Rightarrow> base64 list" where
  "backlog st = (case key_offlineAudioQueue (local st) of None \<Rightarrow> [] | Some q \<Rightarrow> q)"

text \<open>The session after five seconds, with one transcript entry received and persisted.\<close>

definition one_transcribed :: "popup \<times> background" where
  "one_transcribed = onUpdateTranscript 3000 (JStr ''hello'') mic five_seconds_in"

text \<open>Responses, networks, a chain with a fallback that works, and a queue of two chunks.\<close>

definition hello_response :: json where
  "hello_response = JObj [(''candidates'',
     JArr [JObj [(''content'', JObj [(''parts'', JArr [JObj [(''text'', JStr ''hello'')]])])]])]"

definition hello_net :: network where
  "hello_net url audio i = Response 200 (Parsed hello_response)"

definition malformed_net :: network where
  "malformed_net url audio i = Response 200 (Unparsable ''Unexpected end of JSON input'')"

definition down_net :: network where
  "down_net url audio i = Rejected ''Failed to fetch''"

definition quota_net :: network where
  "quota_net url audio i =
     Response 429 (Parsed (JObj [(''error'', JObj [(''message'', JStr ''Quota exceeded'')])]))"

definition fallback_chain :: "(string \<times> service) list" where
  "fallback_chain = [(''A'', callGeminiApi malformed_net), (''B'', callGeminiApi hello_net),
     (''C'', callWhisperApi)]"

definition two_queued :: background where
  "two_queued = handleAudioChunk False down_net ''second''
     (handleAudioChunk False down_net ''first'' bg_init)"

text \<open>
  The first entry meets a network that is down, the second one that answers; the schedule
  lets the first dispatch send its first request, then the second dispatch run to its
  end, and then the first finish.
\<close>

definition mixed_nets :: "nat \<Rightarrow> network" where
  "mixed_nets i = (if i = 0 then down_net else hello_net)"

definition second_first :: "nat list" where
  "second_first = [0, 0, 0, 1, 1, 1, 1, 1, 1]"

section \<open>Properties of the capture context\<close>

subsection \<open>The buffer never holds an empty Blob\<close>

lemma chunks_simps [simp]:
  "chunks (st\<lparr>audioChunks := a\<rparr>) = chunks st"
  "chunks (st\<lparr>mediaRecorder := m\<rparr>) = chunks st"
  "chunks (st\<lparr>gathered := g\<rparr>) = chunks st"
  "chunks (st\<lparr>speechTimeout := t\<rparr>) = chunks st"
  "chunks (st\<lparr>silenceCheckInterval := i\<rparr>) = chunks st"
  "chunks (st\<lparr>closed := c\<rparr>) = chunks st"
  "chunks (st\<lparr>sent := sent st @ [ProcessAudioChunk b]\<rparr>) = chunks st @ [b]"
  "chunks (st\<lparr>sent := sent st @ [RecordingError e]\<rparr>) = chunks st"
  by (simp_all add: chunks_def)

lemma concat_nonempty: "xs \<noteq> [] \<Longrightarrow> \<forall>c\<in>set xs. c \<noteq> [] \<Longrightarrow> concat xs \<noteq> []"
  by (cases xs) auto

lemma buffer_ok_ondataavailable: "buffer_ok st \<Longrightarrow> buffer_ok (ondataavailable d st)"
  by (simp add: buffer_ok_def ondataavailable_def)

lemma buffer_ok_onstop: "buffer_ok st \<Longrightarrow> buffer_ok (onstop st)"
  by (simp add: buffer_ok_def onstop_def concat_nonempty)

lemma buffer_ok_recorder_stop: "buffer_ok st \<Longrightarrow> buffer_ok (recorder_stop st)"
proof -
  assume ok: "buffer_ok st"
  then have "buffer_ok (st\<lparr>mediaRecorder := Some Inactive, gathered := []\<rparr>)"
    by (simp add: buffer_ok_def)
  then show ?thesis using ok
    by (simp add: recorder_stop_def buffer_ok_onstop buffer_ok_ondataavailable)
qed

lemma buffer_ok_handleMessages: "buffer_ok st \<Longrightarrow> buffer_ok (handleMessages a st)"
proof (cases a)
  case (startOffscreenRecording media)
  assume "buffer_ok st"
  then show ?thesis unfolding startOffscreenRecording
    by (auto simp: buffer_ok_def startRecording_def split: option.splits)
next
  case stopOffscreenRecording
  assume "buffer_ok st"
  then have "buffer_ok (st\<lparr>silenceCheckInterval := False, speechTimeout := None\<rparr>)"
    by (simp add: buffer_ok_def)
  then have "buffer_ok (recorder_stop (st\<lparr>silenceCheckInterval := False, speechTimeout := None\<rparr>))"
    by (rule buffer_ok_recorder_stop)
  with \<open>buffer_ok st\<close> show ?thesis unfolding stopOffscreenRecording
    by (simp add: stopRecording_def Let_def buffer_ok_def)
next
  case pauseOffscreenRecording
  assume "buffer_ok st"
  then show ?thesis unfolding pauseOffscreenRecording
    by (simp add: buffer_ok_def recorder_pause_def)
next
  case resumeOffscreenRecording
  assume "buffer_ok st"
  then show ?thesis unfolding resumeOffscreenRecording
    by (simp add: buffer_ok_def recorder_resume_def)
qed

lemma buffer_ok_interval_callback: "buffer_ok st \<Longrightarrow> buffer_ok (interval_callback db st)"
  by (simp add: buffer_ok_def interval_callback_def recorder_start_def Let_def)

lemma buffer_ok_timeout_callback: "buffer_ok st \<Longrightarrow> buffer_ok (timeout_callback st)"
  using buffer_ok_recorder_stop [of st] by (simp add: timeout_callback_def buffer_ok_def)

lemma buffer_ok_step: "buffer_ok st \<Longrightarrow> buffer_ok (step e st)"
proof (cases e)
  case (Message a)
  assume "buffer_ok st"
  then show ?thesis unfolding Message by (simp add: step_def buffer_ok_handleMessages)
next
  case (Tick db)
  assume "buffer_ok st"
  then show ?thesis unfolding Tick by (simp add: step_def buffer_ok_interval_callback)
next
  case (Encoded d)
  assume "buffer_ok st"
  then show ?thesis unfolding Encoded by (simp add: step_def buffer_ok_def)
next
  case (Elapse ms)
  assume "buffer_ok st"
  then show ?thesis unfolding Elapse using buffer_ok_timeout_callback [of st]
    by (auto simp: step_def buffer_ok_def split: option.splits)
qed

lemma buffer_ok_run: "buffer_ok st \<Longrightarrow> buffer_ok (run es st)"
  by (induction es arbitrary: st) (simp_all add: buffer_ok_step)

lemma buffer_ok_fresh: "buffer_ok fresh"
  by (simp add: buffer_ok_def fresh_def chunks_def)

text \<open>
  Claim C6. Whatever messages, samples, encoder output and passing of time reach the
  offscreen document, from the moment it is loaded, every chunk it sends holds at least
  one byte. This covers the chunk sent when the hangover timeout runs and the one sent
  on the stop command alike.
\<close>

theorem no_empty_chunk: "\<forall>b\<in>set (chunks (run es fresh)). 0 < length b"
  using buffer_ok_run [OF buffer_ok_fresh, of es] by (simp add: buffer_ok_def)

theorem no_empty_chunk_witness:
  "[1, 2] \<in> set (chunks (run stop_while_speaking fresh)) \<and> 0 < length [1, 2 :: 8 word]"
proof -
  have e: "chunks (run stop_while_speaking fresh) = [[1, 2]]"
    by code_simp
  from no_empty_chunk [of stop_while_speaking] show ?thesis
    unfolding e by simp
qed

subsection \<open>Chunks and hangovers\<close>

lemma run_append: "run (es @ fs) st = run fs (run es st)"
  by (induction es arbitrary: st) simp_all

lemma feed_Nil: "feed [] st = st"
  by (simp add: feed_def)

lemma feed_Cons: "feed (x # xs) st = feed xs (run (period x) st)"
  by (simp add: feed_def run_append)

lemma period_idle_silent:
  "idle_inv st \<Longrightarrow> \<not> loud d \<Longrightarrow> run (period (d, b)) st = st"
  by (simp add: idle_inv_def loud_def period_def step_def interval_callback_def)

lemma period_idle_loud:
  "idle_inv st \<Longrightarrow> loud d \<Longrightarrow> b \<noteq> [] \<Longrightarrow>
     speaking_inv 0 (run (period (d, b)) st) \<and> chunks (run (period (d, b)) st) = chunks st"
  by (simp add: idle_inv_def speaking_inv_def loud_def period_def step_def interval_callback_def
      recorder_start_def SPEECH_TIMEOUT_def)

lemma period_speaking_loud:
  "speaking_inv k st \<Longrightarrow> loud d \<Longrightarrow>
     speaking_inv 0 (run (period (d, b)) st) \<and> chunks (run (period (d, b)) st) = chunks st"
  by (simp add: speaking_inv_def loud_def period_def step_def interval_callback_def
      SPEECH_TIMEOUT_def)

lemma period_speaking_silent:
  "speaking_inv k st \<Longrightarrow> \<not> loud d \<Longrightarrow> SAMPLE_PERIOD * Suc k < SPEECH_TIMEOUT \<Longrightarrow>
     speaking_inv (Suc k) (run (period (d, b)) st) \<and> chunks (run (period (d, b)) st) = chunks st"
  by (auto simp: speaking_inv_def loud_def period_def step_def interval_callback_def
      SPEECH_TIMEOUT_def SAMPLE_PERIOD_def)

lemma period_speaking_hangover:
  "speaking_inv k st \<Longrightarrow> \<not> loud d \<Longrightarrow> SPEECH_TIMEOUT \<le> SAMPLE_PERIOD * Suc k  \<Longrightarrow>
     idle_inv (run (period (d, b)) st) \<and>
     chunks (run (period (d, b)) st) = chunks st @ [gathered st @ b]"
  by (auto simp: speaking_inv_def idle_inv_def loud_def period_def step_def interval_callback_def
      SPEECH_TIMEOUT_def SAMPLE_PERIOD_def timeout_callback_def recorder_stop_def onstop_def
      ondataavailable_def chunks_def)

lemma feed_count:
  "\<forall>x\<in>set xs. snd x \<noteq> [] \<Longrightarrow>
   (idle_inv st \<longrightarrow>
      length (chunks (feed xs st)) = length (chunks st) + hangovers (map fst xs)) \<and>
   (\<forall>k. speaking_inv k st \<longrightarrow>
      length (chunks (feed xs st)) = length (chunks st) + hangovers (map fst xs) +
        (if SPEECH_TIMEOUT \<le> SAMPLE_PERIOD * (k + silent_prefix (map fst xs)) then 1 else 0))"
proof (induction xs arbitrary: st)
  case Nil
  show ?case by (simp add: feed_Nil speaking_inv_def silent_prefix_def)
next
  case (Cons x xs)
  obtain d b where x: "x = (d, b)" by (cases x)
  from Cons.prems have b: "b \<noteq> []" and rest: "\<forall>x\<in>set xs. snd x \<noteq> []"
    by (simp_all add: x)
  note IH = Cons.IH [OF rest]
  let ?st' = "run (period (d, b)) st"
  show ?case
  proof (intro conjI impI allI)
    assume idle: "idle_inv st"
    show "length (chunks (feed (x # xs) st)) = length (chunks st) + hangovers (map fst (x # xs))"
    proof (cases "loud d")
      case True
      from period_idle_loud [OF idle True b]
      have s: "speaking_inv 0 ?st'" and c: "chunks ?st' = chunks st" by simp_all
      from IH [of ?st'] s c show ?thesis
        by (simp add: x feed_Cons True silent_prefix_def)
    next
      case False
      from period_idle_silent [OF idle False] have "?st' = st" .
      with IH [of st] idle show ?thesis by (simp add: x feed_Cons False)
    qed
  next
    fix k
    assume sp: "speaking_inv k st"
    then have k: "SAMPLE_PERIOD * k < SPEECH_TIMEOUT" by (simp add: speaking_inv_def)
    show "length (chunks (feed (x # xs) st)) =
        length (chunks st) + hangovers (map fst (x # xs)) +
        (if SPEECH_TIMEOUT \<le> SAMPLE_PERIOD * (k + silent_prefix (map fst (x # xs))) then 1 else 0)"
    proof (cases "loud d")
      case True
      from period_speaking_loud [OF sp True]
      have s: "speaking_inv 0 ?st'" and c: "chunks ?st' = chunks st" by simp_all
      from IH [of ?st'] s c k show ?thesis
        by (simp add: x feed_Cons True silent_prefix_def)
    next
      case False
      show ?thesis
      proof (cases "SAMPLE_PERIOD * Suc k < SPEECH_TIMEOUT")
        case True
        from period_speaking_silent [OF sp False True]
        have s: "speaking_inv (Suc k) ?st'" and c: "chunks ?st' = chunks st" by simp_all
        from IH [of ?st'] s c show ?thesis
          by (simp add: x feed_Cons False silent_prefix_def)
      next
        case nt: False
        then have le: "SPEECH_TIMEOUT \<le> SAMPLE_PERIOD * Suc k" by simp
        from period_speaking_hangover [OF sp False le]
        have s: "idle_inv ?st'" and c: "chunks ?st' = chunks st @ [gathered st @ b]" by simp_all
        have "SPEECH_TIMEOUT \<le> SAMPLE_PERIOD * (k + Suc (silent_prefix (map fst xs)))"
          using le by (simp add: SAMPLE_PERIOD_def SPEECH_TIMEOUT_def)
        with IH [of ?st'] s c show ?thesis
          by (simp add: x feed_Cons False silent_prefix_def)
      qed
    qed
  qed
qed

lemma idle_inv_engine_init: "idle_inv engine_init"
  by (simp add: idle_inv_def engine_init_def fresh_def startRecording_def)

lemma chunks_engine_init: "chunks engine_init = []"
  by (simp add: engine_init_def fresh_def startRecording_def chunks_def)

lemma hangovers_pos_iff:
  "0 < hangovers ds \<longleftrightarrow>
     (\<exists>pre s sil post. ds = pre @ s # sil @ post \<and> loud s \<and> (\<forall>d\<in>set sil. \<not> loud d) \<and>
        SPEECH_TIMEOUT \<le> SAMPLE_PERIOD * length sil)"
  (is "?L ds \<longleftrightarrow> ?R ds")
proof
  show "?L ds \<Longrightarrow> ?R ds"
  proof (induction ds)
    case Nil
    then show ?case by simp
  next
    case (Cons d ds)
    show ?case
    proof (cases "loud d \<and> SPEECH_TIMEOUT \<le> SAMPLE_PERIOD * length (takeWhile (\<lambda>x. \<not> loud x) ds)")
      case True
      have "d # ds = [] @ d # takeWhile (\<lambda>x. \<not> loud x) ds @ dropWhile (\<lambda>x. \<not> loud x) ds"
        by simp
      moreover have "\<forall>e\<in>set (takeWhile (\<lambda>x. \<not> loud x) ds). \<not> loud e"
        by (auto dest: set_takeWhileD)
      ultimately show ?thesis using True by blast
    next
      case False
      with Cons.prems have "0 < hangovers ds" by (simp split: if_splits)
      from Cons.IH [OF this] obtain pre s sil post where
        "ds = pre @ s # sil @ post" "loud s" "\<forall>d\<in>set sil. \<not> loud d"
        "SPEECH_TIMEOUT \<le> SAMPLE_PERIOD * length sil" by blast
      then have "d # ds = (d # pre) @ s # sil @ post" by simp
      with \<open>loud s\<close> \<open>\<forall>d\<in>set sil. \<not> loud d\<close> \<open>SPEECH_TIMEOUT \<le> SAMPLE_PERIOD * length sil\<close>
      show ?thesis by blast
    qed
  qed
next
  assume "?R ds"
  then obtain pre s sil post where ds: "ds = pre @ s # sil @ post" and s: "loud s"
    and sil: "\<forall>d\<in>set sil. \<not> loud d" and len: "SPEECH_TIMEOUT \<le> SAMPLE_PERIOD * length sil"
    by blast
  have "length sil \<le> length (takeWhile (\<lambda>x. \<not> loud x) (sil @ post))"
    using sil by (simp add: takeWhile_append2)
  then have "SAMPLE_PERIOD * length sil \<le> SAMPLE_PERIOD * length (takeWhile (\<lambda>x. \<not> loud x) (sil @ post))"
    by (rule mult_le_mono2)
  with len have "SPEECH_TIMEOUT \<le> SAMPLE_PERIOD * length (takeWhile (\<lambda>x. \<not> loud x) (sil @ post))"
    by (rule le_trans)
  with s have "0 < hangovers (s # sil @ post)" by simp
  then show "?L ds" unfolding ds by (induction pre) simp_all
qed

text \<open>
  Claim C1. The loop is fed one sample per period of 200 ms, from the state in which the
  capture has just started, and in every period the encoder produces at least one byte.
  Then the number of chunks sent is the number of speech samples that are followed by a
  run of silence samples lasting at least the hangover of 1500 ms; so a chunk is sent if
  and only if the samples contain a speech sample followed by such a run, and a run of
  silence shorter than the hangover ends no chunk.
\<close>

theorem chunk_iff_hangover:
  assumes "\<forall>x\<in>set xs. snd x \<noteq> []"
  shows "length (chunks (feed xs engine_init)) = hangovers (map fst xs) \<and>
    (chunks (feed xs engine_init) \<noteq> [] \<longleftrightarrow>
       (\<exists>pre s sil post. map fst xs = pre @ s # sil @ post \<and> loud s \<and>
          (\<forall>d\<in>set sil. \<not> loud d) \<and> SPEECH_TIMEOUT \<le> SAMPLE_PERIOD * length sil))"
proof -
  from feed_count [OF assms, of engine_init] idle_inv_engine_init chunks_engine_init
  have n: "length (chunks (feed xs engine_init)) = hangovers (map fst xs)" by simp
  have "chunks (feed xs engine_init) \<noteq> [] \<longleftrightarrow> 0 < hangovers (map fst xs)"
    using n by (metis length_greater_0_conv)
  with n show ?thesis by (simp only: hangovers_pos_iff)
qed

theorem chunk_iff_hangover_witness:
  "[] \<notin> set (map snd scenario) \<and> length (chunks (feed scenario engine_init)) = 1 \<and>
   chunks (feed (butlast scenario) engine_init) = []"
proof -
  have h: "\<forall>x\<in>set scenario. snd x \<noteq> []" by (simp add: scenario_def)
  have h': "\<forall>x\<in>set (butlast scenario). snd x \<noteq> []" by (simp add: scenario_def)
  have one: "hangovers (map fst scenario) = 1"
    by (simp add: scenario_def loud_def SILENCE_THRESHOLD_def SPEECH_TIMEOUT_def SAMPLE_PERIOD_def)
  have none: "hangovers (map fst (butlast scenario)) = 0"
    by (simp add: scenario_def loud_def SILENCE_THRESHOLD_def SPEECH_TIMEOUT_def SAMPLE_PERIOD_def)
  have "[] \<notin> set (map snd scenario)" by (simp add: scenario_def)
  with chunk_iff_hangover [OF h] chunk_iff_hangover [OF h'] one none show ?thesis by simp
qed

subsection \<open>A pause while the hangover timeout is pending\<close>

text \<open>
  Claim C5, evaluated on the code. Speech starts the recorder, one silence sample starts
  the hangover timeout, and the pause command pauses the recorder without clearing the
  timeout. The recorder is then paused and nothing has been sent. When the remaining
  1300 ms have passed the timeout's callback stops the paused recorder, which sends the
  chunk and leaves the recorder inactive; the next loud sample then starts it again,
  although no resume command has arrived.
\<close>

theorem hangover_fires_while_paused:
  "mediaRecorder (run pause_during_hangover engine_init) = Some Paused \<and>
   speechTimeout (run pause_during_hangover engine_init) = Some 1300 \<and>
   chunks (run pause_during_hangover engine_init) = [] \<and>
   chunks (run (pause_during_hangover @ [Elapse 1300]) engine_init) = [[1, 2]] \<and>
   mediaRecorder (run (pause_during_hangover @ [Elapse 1300]) engine_init) = Some Inactive \<and>
   mediaRecorder (run (pause_during_hangover @ [Elapse 1300, Tick (- 30)]) engine_init)
     = Some Recording"
  by code_simp

section \<open>Properties of the dispatcher\<close>

subsection \<open>The retry loop\<close>

lemma attempts_from_done:
  "\<not> i < retries \<Longrightarrow> attempts_from fetch retries delay i = ([], Inr None)"
  by (subst attempts_from.simps) simp

lemma attempts_from_ok:
  "i < retries \<Longrightarrow> attempt (fetch i) = Inr v \<Longrightarrow>
     attempts_from fetch retries delay i = ([Fetched i], Inr (Some v))"
  by (subst attempts_from.simps) simp

lemma attempts_from_last:
  "i < retries \<Longrightarrow> attempt (fetch i) = Inl e \<Longrightarrow> i = retries - 1 \<Longrightarrow>
     attempts_from fetch retries delay i = ([Fetched i], Inl e)"
  by (subst attempts_from.simps) simp

lemma attempts_from_retry:
  "i < retries \<Longrightarrow> attempt (fetch i) = Inl e \<Longrightarrow> i \<noteq> retries - 1 \<Longrightarrow>
     attempts_from fetch retries delay i =
       (Fetched i # Slept (delay * 2 ^ i) # fst (attempts_from fetch retries delay (Suc i)),
        snd (attempts_from fetch retries delay (Suc i)))"
  by (subst attempts_from.simps) (simp add: case_prod_beta)

lemma attempts_from_shape:
  "i \<le> retries \<Longrightarrow>
   \<exists>n. i + n \<le> retries \<and> (i < retries \<longrightarrow> 0 < n) \<and>
     fetches (fst (attempts_from fetch retries delay i)) = [i..<i + n] \<and>
     sleeps (fst (attempts_from fetch retries delay i)) = map (\<lambda>j. delay * 2 ^ j) [i..<i + n - 1]"
proof (induction fetch retries delay i rule: attempts_from.induct)
  case (1 fetch retries delay i)
  show ?case
  proof (cases "i < retries")
    case False
    have e: "attempts_from fetch retries delay i = ([], Inr None)"
      using False by (rule attempts_from_done)
    have "fetches (fst (attempts_from fetch retries delay i)) = []"
      and "sleeps (fst (attempts_from fetch retries delay i)) = []"
      by (simp_all add: e fetches_def sleeps_def)
    with "1.prems" False show ?thesis
      by (intro exI [of _ 0]) simp
  next
    case lt: True
    show ?thesis
    proof (cases "attempt (fetch i)")
      case (Inr v)
      have e: "attempts_from fetch retries delay i = ([Fetched i], Inr (Some v))"
        using lt Inr by (rule attempts_from_ok)
      from lt show ?thesis
        by (intro exI [of _ 1]) (simp add: e fetches_def sleeps_def)
    next
      case (Inl e)
      show ?thesis
      proof (cases "i = retries - 1")
        case True
        have e: "attempts_from fetch retries delay i = ([Fetched i], Inl e)"
          using lt Inl True by (rule attempts_from_last)
        from lt show ?thesis
          by (intro exI [of _ 1]) (simp add: e fetches_def sleeps_def)
      next
        case False
        with lt have le: "Suc i \<le> retries" and lt': "Suc i < retries" by arith+
        from "1.IH" [OF lt Inl False le] lt' obtain n where
          n: "Suc i + n \<le> retries" "0 < n"
          "fetches (fst (attempts_from fetch retries delay (Suc i))) = [Suc i..<Suc i + n]"
          "sleeps (fst (attempts_from fetch retries delay (Suc i))) =
             map (\<lambda>j. delay * 2 ^ j) [Suc i..<Suc i + n - 1]"
          by blast
        have eq: "attempts_from fetch retries delay i =
            (Fetched i # Slept (delay * 2 ^ i) # fst (attempts_from fetch retries delay (Suc i)),
             snd (attempts_from fetch retries delay (Suc i)))"
          using lt Inl False by (rule attempts_from_retry)
        have f: "fetches (fst (attempts_from fetch retries delay i)) = [i..<i + Suc n]"
          using n(3) by (simp add: eq fetches_def upt_rec [of i])
        have "[i..<i + n] = i # [Suc i..<i + n]"
          using n(2) by (simp add: upt_rec [of i])
        then have s: "sleeps (fst (attempts_from fetch retries delay i)) =
            map (\<lambda>j. delay * 2 ^ j) [i..<i + Suc n - 1]"
          using n(4) by (simp add: eq sleeps_def)
        from n(1) f s show ?thesis
          by (intro exI [of _ "Suc n"]) simp
      qed
    qed
  qed
qed

lemma attempts_from_requests:
  "\<forall>e\<in>set (fst (attempts_from fetch retries delay i)). is_request e"
proof (induction fetch retries delay i rule: attempts_from.induct)
  case (1 fetch retries delay i)
  show ?case
  proof (cases "i < retries")
    case False
    have e: "attempts_from fetch retries delay i = ([], Inr None)"
      using False by (rule attempts_from_done)
    show ?thesis by (simp add: e)
  next
    case lt: True
    show ?thesis
    proof (cases "attempt (fetch i)")
      case (Inr v)
      have e: "attempts_from fetch retries delay i = ([Fetched i], Inr (Some v))"
        using lt Inr by (rule attempts_from_ok)
      show ?thesis by (simp add: e)
    next
      case (Inl e)
      show ?thesis
      proof (cases "i = retries - 1")
        case True
        have e: "attempts_from fetch retries delay i = ([Fetched i], Inl e)"
          using lt Inl True by (rule attempts_from_last)
        show ?thesis by (simp add: e)
      next
        case False
        have eq: "attempts_from fetch retries delay i =
            (Fetched i # Slept (delay * 2 ^ i) # fst (attempts_from fetch retries delay (Suc i)),
             snd (attempts_from fetch retries delay (Suc i)))"
          using lt Inl False by (rule attempts_from_retry)
        from "1.IH" [OF lt Inl False] show ?thesis
          by (simp add: eq)
      qed
    qed
  qed
qed

lemma attempts_from_last_error:
  "snd (attempts_from fetch retries delay i) = Inl e \<Longrightarrow>
     i < retries \<and> attempt (fetch (retries - 1)) = Inl e"
proof (induction fetch retries delay i rule: attempts_from.induct)
  case (1 fetch retries delay i)
  show ?case
  proof (cases "i < retries")
    case False
    have e: "attempts_from fetch retries delay i = ([], Inr None)"
      using False by (rule attempts_from_done)
    from "1.prems" show ?thesis by (simp add: e)
  next
    case lt: True
    show ?thesis
    proof (cases "attempt (fetch i)")
      case (Inr v)
      have e: "attempts_from fetch retries delay i = ([Fetched i], Inr (Some v))"
        using lt Inr by (rule attempts_from_ok)
      from "1.prems" show ?thesis by (simp add: e)
    next
      case (Inl e')
      show ?thesis
      proof (cases "i = retries - 1")
        case True
        have e: "attempts_from fetch retries delay i = ([Fetched i], Inl e')"
          using lt Inl True by (rule attempts_from_last)
        from "1.prems" have "e' = e" by (simp add: e)
        with Inl True lt show ?thesis by simp
      next
        case False
        have eq: "attempts_from fetch retries delay i =
            (Fetched i # Slept (delay * 2 ^ i) # fst (attempts_from fetch retries delay (Suc i)),
             snd (attempts_from fetch retries delay (Suc i)))"
          using lt Inl False by (rule attempts_from_retry)
        from "1.prems" have "snd (attempts_from fetch retries delay (Suc i)) = Inl e"
          by (simp add: eq)
        with "1.IH" [OF lt Inl False] lt show ?thesis by simp
      qed
    qed
  qed
qed

subsection \<open>The loop over the providers\<close>

lemma service_log_pair: "service_log a k (n, s) = Invoked n # fst (s a k)"
  by (simp add: service_log_def)

lemma try_services_step_fail:
  assumes sr: "s a (apiKey st) = (eff, r)" and bad: "\<not> provider_ok r"
  shows "try_services ((n, s) # ps) a errs st =
    try_services ps a (errs @ [error_of n r]) (st\<lparr>log := log st @ Invoked n # eff\<rparr>)"
proof (cases r)
  case (Inl m)
  then show ?thesis by (simp add: sr error_of_def Let_def)
next
  case (Inr result)
  show ?thesis
  proof (cases "transcript_of result")
    case None
    then show ?thesis by (simp add: sr Inr error_of_def Let_def)
  next
    case (Some t)
    with bad Inr have "\<not> truthy t" by (simp add: provider_ok_def well_formed_def)
    then show ?thesis by (simp add: sr Inr Some error_of_def Let_def)
  qed
qed

lemma try_services_step_ok:
  assumes sr: "s a (apiKey st) = (eff, Inr result)"
    and t: "transcript_of result = Some t" "truthy t"
  shows "try_services ((n, s) # ps) a errs st =
    (Transcribed t,
     updateStatus ''Recording''
       (if runtime_id st
        then post (UpdateTranscript t (audioSource st)) (st\<lparr>log := log st @ Invoked n # eff\<rparr>)
        else st\<lparr>log := log st @ Invoked n # eff\<rparr>))"
  using t by (simp add: sr Let_def)

lemma try_services_all_fail:
  "\<forall>p\<in>set ps. \<not> provider_ok (snd (snd p a (apiKey st))) \<Longrightarrow>
   try_services ps a errs st =
     (Failed (aggregated (errs @ map (\<lambda>p. error_of (fst p) (snd (snd p a (apiKey st)))) ps)),
      handleError (aggregated (errs @ map (\<lambda>p. error_of (fst p) (snd (snd p a (apiKey st)))) ps))
        (st\<lparr>log := log st @ concat (map (service_log a (apiKey st)) ps)\<rparr>))"
proof (induction ps arbitrary: errs st)
  case Nil
  show ?case by (simp add: aggregated_def Let_def)
next
  case (Cons p ps)
  obtain n s where p: "p = (n, s)" by (cases p)
  obtain eff r where sr: "s a (apiKey st) = (eff, r)" by (cases "s a (apiKey st)")
  let ?st1 = "st\<lparr>log := log st @ Invoked n # eff\<rparr>"
  from Cons.prems have bad: "\<not> provider_ok r"
    and rest: "\<forall>p\<in>set ps. \<not> provider_ok (snd (snd p a (apiKey ?st1)))"
    by (simp_all add: p sr)
  have step: "try_services (p # ps) a errs st = try_services ps a (errs @ [error_of n r]) ?st1"
    unfolding p using sr bad by (rule try_services_step_fail)
  show ?case
    unfolding step Cons.IH [OF rest]
    by (simp add: p sr service_log_pair)
qed

lemma try_services_first_ok:
  "\<forall>p\<in>set pre. \<not> provider_ok (snd (snd p a (apiKey st))) \<Longrightarrow>
   snd (s a (apiKey st)) = Inr result \<Longrightarrow> transcript_of result = Some t \<Longrightarrow> truthy t \<Longrightarrow>
   try_services (pre @ (n, s) # rest) a errs st =
     (Transcribed t,
      updateStatus ''Recording''
        (if runtime_id st
         then post (UpdateTranscript t (audioSource st))
                (st\<lparr>log := log st @ concat (map (service_log a (apiKey st)) (pre @ [(n, s)]))\<rparr>)
         else st\<lparr>log := log st @ concat (map (service_log a (apiKey st)) (pre @ [(n, s)]))\<rparr>))"
proof (induction pre arbitrary: errs st)
  case Nil
  obtain eff where sr: "s a (apiKey st) = (eff, Inr result)"
    using Nil.prems(2) by (cases "s a (apiKey st)") simp
  have "try_services ((n, s) # rest) a errs st =
    (Transcribed t,
     updateStatus ''Recording''
       (if runtime_id st
        then post (UpdateTranscript t (audioSource st)) (st\<lparr>log := log st @ Invoked n # eff\<rparr>)
        else st\<lparr>log := log st @ Invoked n # eff\<rparr>))"
    using sr Nil.prems(3,4) by (rule try_services_step_ok)
  then show ?case
    by (simp add: sr service_log_pair)
next
  case (Cons p pre)
  obtain m q where p: "p = (m, q)" by (cases p)
  obtain eff r where sr: "q a (apiKey st) = (eff, r)" by (cases "q a (apiKey st)")
  let ?st1 = "st\<lparr>log := log st @ Invoked m # eff\<rparr>"
  from Cons.prems(1) have bad: "\<not> provider_ok r"
    and rest: "\<forall>p\<in>set pre. \<not> provider_ok (snd (snd p a (apiKey ?st1)))"
    by (simp_all add: p sr)
  have step: "try_services ((p # pre) @ (n, s) # rest) a errs st =
      try_services (pre @ (n, s) # rest) a (errs @ [error_of m r]) ?st1"
    unfolding p append_Cons using sr bad by (rule try_services_step_fail)
  have s': "snd (s a (apiKey ?st1)) = Inr result" using Cons.prems(2) by simp
  show ?case
    unfolding step Cons.IH [OF rest s' Cons.prems(3,4)]
    by (simp add: p sr service_log_pair)
qed

lemma fetches_simps [simp]:
  "fetches [] = []"
  "fetches (xs @ ys) = fetches xs @ fetches ys"
  "fetches (Fetched i # es) = i # fetches es"
  "fetches (Invoked n # es) = fetches es"
  "fetches (Slept ms # es) = fetches es"
  "fetches (Posted m # es) = fetches es"
  "fetches (Removed # es) = fetches es"
  "fetches (Dispatched c # es) = fetches es"
  "fetches (Settled c # es) = fetches es"
  by (simp_all add: fetches_def)

lemma sleeps_simps [simp]:
  "sleeps [] = []"
  "sleeps (xs @ ys) = sleeps xs @ sleeps ys"
  "sleeps (Slept ms # es) = ms # sleeps es"
  "sleeps (Invoked n # es) = sleeps es"
  "sleeps (Fetched i # es) = sleeps es"
  "sleeps (Posted m # es) = sleeps es"
  "sleeps (Removed # es) = sleeps es"
  "sleeps (Dispatched c # es) = sleeps es"
  "sleeps (Settled c # es) = sleeps es"
  by (simp_all add: sleeps_def)

lemma invoked_simps [simp]:
  "invoked [] = []"
  "invoked (xs @ ys) = invoked xs @ invoked ys"
  "invoked (Invoked n # es) = n # invoked es"
  "invoked (Fetched i # es) = invoked es"
  "invoked (Slept ms # es) = invoked es"
  "invoked (Posted m # es) = invoked es"
  "invoked (Removed # es) = invoked es"
  "invoked (Dispatched c # es) = invoked es"
  "invoked (Settled c # es) = invoked es"
  by (simp_all add: invoked_def)

lemma dispatched_simps [simp]:
  "dispatched [] = []"
  "dispatched (xs @ ys) = dispatched xs @ dispatched ys"
  "dispatched (Dispatched c # es) = c # dispatched es"
  "dispatched (Fetched i # es) = dispatched es"
  "dispatched (Slept ms # es) = dispatched es"
  "dispatched (Posted m # es) = dispatched es"
  "dispatched (Removed # es) = dispatched es"
  "dispatched (Invoked n # es) = dispatched es"
  "dispatched (Settled c # es) = dispatched es"
  by (simp_all add: dispatched_def)

lemma settled_simps [simp]:
  "settled [] = []"
  "settled (xs @ ys) = settled xs @ settled ys"
  "settled (Settled c # es) = c # settled es"
  "settled (Fetched i # es) = settled es"
  "settled (Slept ms # es) = settled es"
  "settled (Posted m # es) = settled es"
  "settled (Removed # es) = settled es"
  "settled (Invoked n # es) = settled es"
  "settled (Dispatched c # es) = settled es"
  by (simp_all add: settled_def)

lemma requests_project:
  "\<forall>e\<in>set es. is_request e \<Longrightarrow>
     invoked es = [] \<and> dispatched es = [] \<and> settled es = [] \<and> Removed \<notin> set es"
proof (induction es)
  case Nil
  show ?case by simp
next
  case (Cons e es)
  then show ?case by (cases e) simp_all
qed

lemma gemini_requests: "\<forall>e\<in>set (fst (callGeminiApi net a k)). is_request e"
  by (simp add: callGeminiApi_def callGeminiApi_with_def attempts_from_requests)

lemma log_post [simp]: "log (post m st) = log st @ [Posted m]"
  by (simp add: post_def)

lemma log_updateStatus [simp]:
  "log (updateStatus s st) = log st @ (if runtime_id st then [Posted (StatusUpdate s)] else [])"
  by (simp add: updateStatus_def)

lemma log_handleError [simp]:
  "log (handleError m st) = log st @
     (if runtime_id st
      then [Posted (ErrorNotice m), Posted StopOffscreenRecording, Posted RecordingStopped]
      else [])"
  by (simp add: handleError_def bg_stopRecording_def post_def Let_def)

lemma frame_post [simp]:
  "apiKey (post m st) = apiKey st" "runtime_id (post m st) = runtime_id st"
  "audioSource (post m st) = audioSource st" "local (post m st) = local st"
  by (simp_all add: post_def)

lemma frame_updateStatus [simp]:
  "apiKey (updateStatus s st) = apiKey st" "runtime_id (updateStatus s st) = runtime_id st"
  "audioSource (updateStatus s st) = audioSource st" "local (updateStatus s st) = local st"
  by (simp_all add: updateStatus_def)

lemma frame_handleError [simp]:
  "apiKey (handleError m st) = apiKey st" "runtime_id (handleError m st) = runtime_id st"
  "audioSource (handleError m st) = audioSource st"
  "key_offlineAudioQueue (local (handleError m st)) = key_offlineAudioQueue (local st)"
  by (simp_all add: handleError_def bg_stopRecording_def post_def Let_def)

lemma services_all_fail:
  "\<not> provider_ok (snd (callGeminiApi net a k)) \<Longrightarrow>
     \<forall>p\<in>set (services net). \<not> provider_ok (snd (snd p a k))"
  by (simp add: services_def callWhisperApi_def callDeepgramApi_def provider_ok_def)

lemma transcribeAudio_fail:
  assumes "\<not> provider_ok (snd (callGeminiApi net a (apiKey st)))"
  shows "fst (transcribeAudio net a st) = Failed (gemini_failure net a (apiKey st))"
    and "log (snd (transcribeAudio net a st)) =
      log st @ Dispatched a # Invoked ''callGeminiApi'' # fst (callGeminiApi net a (apiKey st)) @
        [Invoked ''callWhisperApi'', Invoked ''callDeepgramApi''] @
        (if runtime_id st
         then [Posted (ErrorNotice (gemini_failure net a (apiKey st))),
               Posted StopOffscreenRecording, Posted RecordingStopped]
         else []) @ [Settled a]"
    and "key_offlineAudioQueue (local (snd (transcribeAudio net a st))) = key_offlineAudioQueue (local st)"
    and "apiKey (snd (transcribeAudio net a st)) = apiKey st"
    and "runtime_id (snd (transcribeAudio net a st)) = runtime_id st"
proof -
  let ?st0 = "st\<lparr>log := log st @ [Dispatched a]\<rparr>"
  have k: "apiKey ?st0 = apiKey st" by simp
  from services_all_fail [OF assms]
  have "\<forall>p\<in>set (services net). \<not> provider_ok (snd (snd p a (apiKey ?st0)))" by simp
  note eq = try_services_all_fail [OF this, of "[]"]
  have m: "aggregated ([] @ map (\<lambda>p. error_of (fst p) (snd (snd p a (apiKey ?st0)))) (services net))
      = gemini_failure net a (apiKey st)"
    by (simp add: services_def gemini_failure_def error_of_def callWhisperApi_def callDeepgramApi_def)
  have l: "concat (map (service_log a (apiKey ?st0)) (services net)) =
      Invoked ''callGeminiApi'' # fst (callGeminiApi net a (apiKey st)) @
        [Invoked ''callWhisperApi'', Invoked ''callDeepgramApi'']"
    by (simp add: services_def service_log_pair callWhisperApi_def callDeepgramApi_def)
  show "fst (transcribeAudio net a st) = Failed (gemini_failure net a (apiKey st))"
    unfolding transcribeAudio_def eq m by simp
  show "log (snd (transcribeAudio net a st)) =
      log st @ Dispatched a # Invoked ''callGeminiApi'' # fst (callGeminiApi net a (apiKey st)) @
        [Invoked ''callWhisperApi'', Invoked ''callDeepgramApi''] @
        (if runtime_id st
         then [Posted (ErrorNotice (gemini_failure net a (apiKey st))),
               Posted StopOffscreenRecording, Posted RecordingStopped]
         else []) @ [Settled a]"
    unfolding transcribeAudio_def eq m l by simp
  show "key_offlineAudioQueue (local (snd (transcribeAudio net a st))) = key_offlineAudioQueue (local st)"
    unfolding transcribeAudio_def eq m l by simp
  show "apiKey (snd (transcribeAudio net a st)) = apiKey st"
    unfolding transcribeAudio_def eq m l by simp
  show "runtime_id (snd (transcribeAudio net a st)) = runtime_id st"
    unfolding transcribeAudio_def eq m l by simp
qed

lemma transcribeAudio_ok:
  assumes "snd (callGeminiApi net a (apiKey st)) = Inr result"
    and "transcript_of result = Some t" and "truthy t"
  shows "fst (transcribeAudio net a st) = Transcribed t"
    and "log (snd (transcribeAudio net a st)) =
      log st @ Dispatched a # Invoked ''callGeminiApi'' # fst (callGeminiApi net a (apiKey st)) @
        (if runtime_id st
         then [Posted (UpdateTranscript t (audioSource st)), Posted (StatusUpdate ''Recording'')]
         else []) @ [Settled a]"
    and "key_offlineAudioQueue (local (snd (transcribeAudio net a st))) = key_offlineAudioQueue (local st)"
    and "apiKey (snd (transcribeAudio net a st)) = apiKey st"
    and "runtime_id (snd (transcribeAudio net a st)) = runtime_id st"
proof -
  let ?st0 = "st\<lparr>log := log st @ [Dispatched a]\<rparr>"
  have sr: "callGeminiApi net a (apiKey ?st0) = (fst (callGeminiApi net a (apiKey st)), Inr result)"
    using assms(1) by (simp add: prod_eq_iff)
  have eq: "try_services (services net) a [] ?st0 =
    (Transcribed t,
     updateStatus ''Recording''
       (if runtime_id ?st0
        then post (UpdateTranscript t (audioSource ?st0))
          (?st0\<lparr>log := log ?st0 @ Invoked ''callGeminiApi'' # fst (callGeminiApi net a (apiKey st))\<rparr>)
        else ?st0\<lparr>log := log ?st0 @ Invoked ''callGeminiApi'' # fst (callGeminiApi net a (apiKey st))\<rparr>))"
    unfolding services_def using sr assms(2,3) by (rule try_services_step_ok)
  show "fst (transcribeAudio net a st) = Transcribed t"
    unfolding transcribeAudio_def eq by simp
  show "log (snd (transcribeAudio net a st)) =
      log st @ Dispatched a # Invoked ''callGeminiApi'' # fst (callGeminiApi net a (apiKey st)) @
        (if runtime_id st
         then [Posted (UpdateTranscript t (audioSource st)), Posted (StatusUpdate ''Recording'')]
         else []) @ [Settled a]"
    unfolding transcribeAudio_def eq by simp
  show "key_offlineAudioQueue (local (snd (transcribeAudio net a st))) = key_offlineAudioQueue (local st)"
    unfolding transcribeAudio_def eq by simp
  show "apiKey (snd (transcribeAudio net a st)) = apiKey st"
    unfolding transcribeAudio_def eq by simp
  show "runtime_id (snd (transcribeAudio net a st)) = runtime_id st"
    unfolding transcribeAudio_def eq by simp
qed

lemma since_append: "log st' = log st @ new \<Longrightarrow> since st st' = new"
  by (simp add: since_def)

lemma provider_ok_iff:
  "provider_ok r \<longleftrightarrow> (\<exists>result t. r = Inr result \<and> transcript_of result = Some t \<and> truthy t)"
  by (cases r) (auto simp: provider_ok_def well_formed_def split: option.splits)

lemma gemini_invoked [simp]: "invoked (fst (callGeminiApi net a k)) = []"
  using requests_project [OF gemini_requests] by blast

lemma gemini_settled [simp]: "settled (fst (callGeminiApi net a k)) = []"
  using requests_project [OF gemini_requests] by blast

lemma gemini_dispatched [simp]: "dispatched (fst (callGeminiApi net a k)) = []"
  using requests_project [OF gemini_requests] by blast

lemma gemini_not_removed [simp]: "Removed \<notin> set (fst (callGeminiApi net a k))"
  using requests_project [OF gemini_requests] by blast

lemma since_transcribeAudio_ok:
  assumes "snd (callGeminiApi net a (apiKey st)) = Inr result"
    and "transcript_of result = Some t" and "truthy t"
  shows "since st (snd (transcribeAudio net a st)) =
      Dispatched a # Invoked ''callGeminiApi'' # fst (callGeminiApi net a (apiKey st)) @
        (if runtime_id st
         then [Posted (UpdateTranscript t (audioSource st)), Posted (StatusUpdate ''Recording'')]
         else []) @ [Settled a]"
  by (rule since_append) (simp add: transcribeAudio_ok(2) [OF assms])

lemma since_transcribeAudio_fail:
  assumes "\<not> provider_ok (snd (callGeminiApi net a (apiKey st)))"
  shows "since st (snd (transcribeAudio net a st)) =
      Dispatched a # Invoked ''callGeminiApi'' # fst (callGeminiApi net a (apiKey st)) @
        [Invoked ''callWhisperApi'', Invoked ''callDeepgramApi''] @
        (if runtime_id st
         then [Posted (ErrorNotice (gemini_failure net a (apiKey st))),
               Posted StopOffscreenRecording, Posted RecordingStopped]
         else []) @ [Settled a]"
  by (rule since_append) (simp add: transcribeAudio_fail(2) [OF assms])

lemma since_first_ok:
  assumes pre: "list_all (\<lambda>p. \<not> provider_ok (snd (snd p a (apiKey st))) \<and>
        list_all is_request (fst (snd p a (apiKey st)))) pre"
    and req: "list_all is_request (fst (s a (apiKey st)))"
    and ok: "snd (s a (apiKey st)) = Inr result" "transcript_of result = Some t" "truthy t"
  shows "fst (try_services (pre @ (n, s) # rest) a errs st) = Transcribed t"
    and "invoked (since st (snd (try_services (pre @ (n, s) # rest) a errs st))) = map fst pre @ [n]"
proof -
  from pre have bad: "\<forall>p\<in>set pre. \<not> provider_ok (snd (snd p a (apiKey st)))"
    by (simp add: list_all_iff)
  note eq = try_services_first_ok [where pre = pre and a = a and st = st and s = s
      and result = result and t = t and n = n and rest = rest and errs = errs, OF bad ok]
  show "fst (try_services (pre @ (n, s) # rest) a errs st) = Transcribed t"
    by (simp add: eq)
  have i: "invoked (concat (map (service_log a (apiKey st)) pre)) = map fst pre"
    using pre
  proof (induction pre)
    case Nil
    show ?case by simp
  next
    case (Cons p pre)
    from Cons.prems have "\<forall>e\<in>set (fst (snd p a (apiKey st))). is_request e"
      by (simp add: list_all_iff)
    then have "invoked (fst (snd p a (apiKey st))) = []" using requests_project by blast
    with Cons show ?case by (simp add: service_log_def)
  qed
  from req have "invoked (fst (s a (apiKey st))) = []"
    using requests_project by (simp add: list_all_iff)
  with i have "invoked (since st (snd (try_services (pre @ (n, s) # rest) a errs st))) =
      map fst pre @ [n]"
    by (simp add: eq since_def service_log_pair)
  then show "invoked (since st (snd (try_services (pre @ (n, s) # rest) a errs st))) = map fst pre @ [n]" .
qed

text \<open>
  Claim C2. The providers are callGeminiApi, callWhisperApi and callDeepgramApi in this
  order. The loop over a list of providers calls them in the order of the list: when
  every provider before some provider fails and that provider returns a response whose
  transcript is truthy, the dispatch yields that transcript, and the providers called
  are exactly those up to and including it, none after it. For the configured chain:
  when callGeminiApi returns such a response the dispatch yields its transcript, posts it
  while the runtime is alive and calls no other provider; when it does not, all three are
  called in order.
\<close>

theorem providers_tried_in_order:
  "map fst (services net) = [''callGeminiApi'', ''callWhisperApi'', ''callDeepgramApi''] \<and>
   (\<forall>pre name service rest result t errs.
      list_all (\<lambda>p. \<not> provider_ok (snd (snd p audio (apiKey st))) \<and>
        list_all is_request (fst (snd p audio (apiKey st)))) pre \<longrightarrow>
      list_all is_request (fst (service audio (apiKey st))) \<longrightarrow>
      snd (service audio (apiKey st)) = Inr result \<longrightarrow> transcript_of result = Some t \<longrightarrow> truthy t \<longrightarrow>
        fst (try_services (pre @ (name, service) # rest) audio errs st) = Transcribed t \<and>
        invoked (since st (snd (try_services (pre @ (name, service) # rest) audio errs st)))
          = map fst pre @ [name]) \<and>
   (\<forall>result t.
      snd (callGeminiApi net audio (apiKey st)) = Inr result \<longrightarrow> transcript_of result = Some t \<longrightarrow>
      truthy t \<longrightarrow>
        fst (transcribeAudio net audio st) = Transcribed t \<and>
        invoked (since st (snd (transcribeAudio net audio st))) = [''callGeminiApi''] \<and>
        (runtime_id st \<longrightarrow>
           Posted (UpdateTranscript t (audioSource st)) \<in> set (since st (snd (transcribeAudio net audio st))))) \<and>
   (\<not> provider_ok (snd (callGeminiApi net audio (apiKey st))) \<longrightarrow>
      invoked (since st (snd (transcribeAudio net audio st)))
        = [''callGeminiApi'', ''callWhisperApi'', ''callDeepgramApi''])"
proof (intro conjI allI impI)
  show "map fst (services net) = [''callGeminiApi'', ''callWhisperApi'', ''callDeepgramApi'']"
    by (simp add: services_def)
next
  fix pre rest :: "(string \<times> service) list" and name :: string and service :: service
    and result t errs
  assume "list_all (\<lambda>p. \<not> provider_ok (snd (snd p audio (apiKey st))) \<and>
        list_all is_request (fst (snd p audio (apiKey st)))) pre"
    and "list_all is_request (fst (service audio (apiKey st)))"
    and "snd (service audio (apiKey st)) = Inr result" "transcript_of result = Some t" "truthy t"
  note h = this
  show "fst (try_services (pre @ (name, service) # rest) audio errs st) = Transcribed t"
    using h by (rule since_first_ok(1))
  show "invoked (since st (snd (try_services (pre @ (name, service) # rest) audio errs st)))
          = map fst pre @ [name]"
    using h by (rule since_first_ok(2))
next
  fix result t
  assume h: "snd (callGeminiApi net audio (apiKey st)) = Inr result" "transcript_of result = Some t"
    "truthy t"
  show "fst (transcribeAudio net audio st) = Transcribed t"
    using h by (rule transcribeAudio_ok(1))
  show "invoked (since st (snd (transcribeAudio net audio st))) = [''callGeminiApi'']"
    by (simp add: since_transcribeAudio_ok [OF h])
  show "Posted (UpdateTranscript t (audioSource st)) \<in> set (since st (snd (transcribeAudio net audio st)))"
    if "runtime_id st"
    using that by (simp add: since_transcribeAudio_ok [OF h])
next
  assume "\<not> provider_ok (snd (callGeminiApi net audio (apiKey st)))"
  then show "invoked (since st (snd (transcribeAudio net audio st)))
        = [''callGeminiApi'', ''callWhisperApi'', ''callDeepgramApi'']"
    by (simp add: since_transcribeAudio_fail)
qed

theorem providers_tried_in_order_witness:
  "fst (try_services fallback_chain ''UklGRg=='' [] bg_init) = Transcribed (JStr ''hello'') \<and>
   invoked (since bg_init (snd (try_services fallback_chain ''UklGRg=='' [] bg_init))) = [''A'', ''B''] \<and>
   fst (transcribeAudio hello_net ''UklGRg=='' bg_init) = Transcribed (JStr ''hello'') \<and>
   invoked (since bg_init (snd (transcribeAudio hello_net ''UklGRg=='' bg_init))) = [''callGeminiApi'']"
proof -
  note T = providers_tried_in_order [where net = hello_net and audio = "''UklGRg==''" and st = bg_init]
  have h1: "list_all (\<lambda>p. \<not> provider_ok (snd (snd p ''UklGRg=='' (apiKey bg_init))) \<and>
      list_all is_request (fst (snd p ''UklGRg=='' (apiKey bg_init))))
      [(''A'', callGeminiApi malformed_net)]"
    by code_simp
  have h2: "list_all is_request (fst (callGeminiApi hello_net ''UklGRg=='' (apiKey bg_init)))"
    by code_simp
  have h3: "snd (callGeminiApi hello_net ''UklGRg=='' (apiKey bg_init)) = Inr (Some hello_response)"
    by code_simp
  have h4: "transcript_of (Some hello_response) = Some (JStr ''hello'')"
    by code_simp
  have h5: "truthy (JStr ''hello'')" by simp
  have c: "fallback_chain = [(''A'', callGeminiApi malformed_net)] @
      (''B'', callGeminiApi hello_net) # [(''C'', callWhisperApi)]"
    by (simp add: fallback_chain_def)
  from T [THEN conjunct2, THEN conjunct1, rule_format,
      where pre = "[(''A'', callGeminiApi malformed_net)]" and service = "callGeminiApi hello_net"
        and name = "''B''" and rest = "[(''C'', callWhisperApi)]" and errs = "[]",
      OF h1 h2 h3 h4 h5]
  have a: "fst (try_services fallback_chain ''UklGRg=='' [] bg_init) = Transcribed (JStr ''hello'') \<and>
    invoked (since bg_init (snd (try_services fallback_chain ''UklGRg=='' [] bg_init))) = [''A'', ''B'']"
    unfolding c by simp
  from T [THEN conjunct2, THEN conjunct2, THEN conjunct1, rule_format, OF h3 h4 h5]
  have b: "fst (transcribeAudio hello_net ''UklGRg=='' bg_init) = Transcribed (JStr ''hello'') \<and>
    invoked (since bg_init (snd (transcribeAudio hello_net ''UklGRg=='' bg_init))) = [''callGeminiApi'']"
    by simp
  from a b show ?thesis by simp
qed

subsection \<open>Attempts and back-off\<close>

lemma gemini_with_shape:
  "length (fetches (fst (callGeminiApi_with net retries delay a k))) \<le> retries \<and>
   fetches (fst (callGeminiApi_with net retries delay a k)) =
     [0..<length (fetches (fst (callGeminiApi_with net retries delay a k)))] \<and>
   sleeps (fst (callGeminiApi_with net retries delay a k)) =
     map (\<lambda>i. delay * 2 ^ i) [0..<length (fetches (fst (callGeminiApi_with net retries delay a k))) - 1]"
proof -
  from attempts_from_shape [of 0 retries "net (API_URL k) a" delay]
  obtain n where n: "n \<le> retries"
    "fetches (fst (attempts_from (net (API_URL k) a) retries delay 0)) = [0..<n]"
    "sleeps (fst (attempts_from (net (API_URL k) a) retries delay 0)) = map (\<lambda>j. delay * 2 ^ j) [0..<n - 1]"
    by auto
  then show ?thesis by (simp add: callGeminiApi_with_def)
qed

lemma dispatch_requests:
  "fetches (since st (snd (transcribeAudio net a st))) = fetches (fst (callGeminiApi net a (apiKey st))) \<and>
   sleeps (since st (snd (transcribeAudio net a st))) = sleeps (fst (callGeminiApi net a (apiKey st)))"
proof (cases "provider_ok (snd (callGeminiApi net a (apiKey st)))")
  case True
  then obtain result t where h: "snd (callGeminiApi net a (apiKey st)) = Inr result"
    "transcript_of result = Some t" "truthy t"
    unfolding provider_ok_iff by blast
  show ?thesis by (simp add: since_transcribeAudio_ok [OF h])
next
  case False
  then show ?thesis by (simp add: since_transcribeAudio_fail)
qed

lemma doubling:
  fixes d :: nat
  shows "xs = map (\<lambda>i. d * 2 ^ i) [0..<m] \<Longrightarrow> \<forall>i. Suc i < length xs \<longrightarrow> xs ! Suc i = 2 * xs ! i"
  by simp

text \<open>
  Claim C7. \<^verbatim>\<open>callGeminiApi\<close> with a maximum of \<open>retries\<close> and a base delay makes at most
  \<open>retries\<close> attempts, numbered from 0, and waits \<open>delay * 2 ^ i\<close> ms after the failed
  attempt \<open>i\<close>, except after the last. Every provider of the chain makes at most 3
  attempts, with waits \<open>1000 * 2 ^ i\<close>; so does a whole dispatch, in which each wait is
  twice the one before.
\<close>

theorem retries_bounded_backoff_doubles:
  "(let eff = fst (callGeminiApi_with net retries delay audio key); n = length (fetches eff)
    in n \<le> retries \<and> fetches eff = [0..<n] \<and> sleeps eff = map (\<lambda>i. delay * 2 ^ i) [0..<n - 1]) \<and>
   list_all (\<lambda>p. let eff = fst (snd p audio key); n = length (fetches eff)
      in n \<le> 3 \<and> sleeps eff = map (\<lambda>i. 1000 * 2 ^ i) [0..<n - 1]) (services net) \<and>
   (let eff = since st (snd (transcribeAudio net audio st)); n = length (fetches eff)
    in n \<le> 3 \<and> sleeps eff = map (\<lambda>i. 1000 * 2 ^ i) [0..<n - 1] \<and>
       (\<forall>i. Suc i < length (sleeps eff) \<longrightarrow> sleeps eff ! Suc i = 2 * sleeps eff ! i))"
proof (intro conjI)
  show "let eff = fst (callGeminiApi_with net retries delay audio key); n = length (fetches eff)
    in n \<le> retries \<and> fetches eff = [0..<n] \<and> sleeps eff = map (\<lambda>i. delay * 2 ^ i) [0..<n - 1]"
    using gemini_with_shape [of net retries delay audio key] by (simp add: Let_def)
  show "list_all (\<lambda>p. let eff = fst (snd p audio key); n = length (fetches eff)
      in n \<le> 3 \<and> sleeps eff = map (\<lambda>i. 1000 * 2 ^ i) [0..<n - 1]) (services net)"
    using gemini_with_shape [of net 3 1000 audio key]
    by (simp add: services_def callGeminiApi_def callWhisperApi_def callDeepgramApi_def Let_def)
  from gemini_with_shape [of net 3 1000 audio "apiKey st"]
  have b: "length (fetches (since st (snd (transcribeAudio net audio st)))) \<le> 3"
    and s: "sleeps (since st (snd (transcribeAudio net audio st))) =
      map (\<lambda>i. 1000 * 2 ^ i) [0..<length (fetches (since st (snd (transcribeAudio net audio st)))) - 1]"
    by (simp_all add: dispatch_requests callGeminiApi_def)
  from doubling [OF s]
  have d: "\<forall>i. Suc i < length (sleeps (since st (snd (transcribeAudio net audio st)))) \<longrightarrow>
      sleeps (since st (snd (transcribeAudio net audio st))) ! Suc i =
      2 * sleeps (since st (snd (transcribeAudio net audio st))) ! i" .
  from b s d show "let eff = since st (snd (transcribeAudio net audio st)); n = length (fetches eff)
    in n \<le> 3 \<and> sleeps eff = map (\<lambda>i. 1000 * 2 ^ i) [0..<n - 1] \<and>
       (\<forall>i. Suc i < length (sleeps eff) \<longrightarrow> sleeps eff ! Suc i = 2 * sleeps eff ! i)"
    unfolding Let_def by blast
qed

theorem retries_bounded_backoff_doubles_witness:
  "fetches (since bg_init (snd (transcribeAudio down_net ''UklGRg=='' bg_init))) = [0, 1, 2] \<and>
   sleeps (since bg_init (snd (transcribeAudio down_net ''UklGRg=='' bg_init))) = [1000, 2000] \<and>
   sleeps (since bg_init (snd (transcribeAudio down_net ''UklGRg=='' bg_init))) ! Suc 0 =
     2 * sleeps (since bg_init (snd (transcribeAudio down_net ''UklGRg=='' bg_init))) ! 0"
proof -
  note T = retries_bounded_backoff_doubles [where net = down_net and retries = 3 and delay = 1000
      and audio = "''UklGRg==''" and key = None and st = bg_init]
  have f: "fetches (since bg_init (snd (transcribeAudio down_net ''UklGRg=='' bg_init))) = [0, 1, 2]"
    by code_simp
  have m: "map (\<lambda>i. 1000 * 2 ^ i) [0..<length [0, 1, 2 :: nat] - 1] = [1000, 2000 :: nat]"
    by code_simp
  from T have s: "sleeps (since bg_init (snd (transcribeAudio down_net ''UklGRg=='' bg_init))) =
      map (\<lambda>i. 1000 * 2 ^ i)
        [0..<length (fetches (since bg_init (snd (transcribeAudio down_net ''UklGRg=='' bg_init)))) - 1]"
    and d: "\<forall>i. Suc i < length (sleeps (since bg_init (snd (transcribeAudio down_net ''UklGRg=='' bg_init)))) \<longrightarrow>
      sleeps (since bg_init (snd (transcribeAudio down_net ''UklGRg=='' bg_init))) ! Suc i =
      2 * sleeps (since bg_init (snd (transcribeAudio down_net ''UklGRg=='' bg_init))) ! i"
    unfolding Let_def by blast+
  from s have s': "sleeps (since bg_init (snd (transcribeAudio down_net ''UklGRg=='' bg_init))) = [1000, 2000]"
    unfolding f m .
  from d [rule_format, of 0] s' f show ?thesis by simp
qed

subsection \<open>The aggregated failure\<close>

lemma gemini_last_error:
  "snd (callGeminiApi net a k) = Inl e \<Longrightarrow> attempt (net (API_URL k) a 2) = Inl e"
  using attempts_from_last_error [of "net (API_URL k) a" 3 1000 0 e]
  by (simp add: callGeminiApi_def callGeminiApi_with_def)

text \<open>
  Claim C8. When no provider of a list yields a good result, the dispatch fails with one
  message: the fixed prefix, then for each provider in order its name, a colon and its
  error, joined by semicolons. For the configured chain the message has the three parts
  for callGeminiApi, callWhisperApi and callDeepgramApi, and the error of callGeminiApi,
  when it threw, is the error of its third and last attempt.
\<close>

theorem all_providers_fail_aggregated:
  "(list_all (\<lambda>p. \<not> provider_ok (snd (snd p audio (apiKey st)))) ps \<longrightarrow>
      fst (try_services ps audio [] st) =
        Failed (''Transcription failed. Details: '' @
          join ''; '' (map (\<lambda>p. error_of (fst p) (snd (snd p audio (apiKey st)))) ps))) \<and>
   (\<not> provider_ok (snd (callGeminiApi net audio (apiKey st))) \<longrightarrow>
      fst (transcribeAudio net audio st) =
        Failed (''Transcription failed. Details: '' @
          error_of ''callGeminiApi'' (snd (callGeminiApi net audio (apiKey st))) @
          ''; callWhisperApi: Whisper API not implemented.'' @
          ''; callDeepgramApi: Deepgram API not implemented.'') \<and>
      (\<forall>e. snd (callGeminiApi net audio (apiKey st)) = Inl e \<longrightarrow>
         attempt (net (API_URL (apiKey st)) audio 2) = Inl e))"
proof (intro conjI impI allI)
  assume "list_all (\<lambda>p. \<not> provider_ok (snd (snd p audio (apiKey st)))) ps"
  then have "\<forall>p\<in>set ps. \<not> provider_ok (snd (snd p audio (apiKey st)))"
    by (simp add: list_all_iff)
  from try_services_all_fail [OF this, of "[]"]
  show "fst (try_services ps audio [] st) =
        Failed (''Transcription failed. Details: '' @
          join ''; '' (map (\<lambda>p. error_of (fst p) (snd (snd p audio (apiKey st)))) ps))"
    by (simp add: aggregated_def)
next
  assume "\<not> provider_ok (snd (callGeminiApi net audio (apiKey st)))"
  from transcribeAudio_fail(1) [OF this]
  show "fst (transcribeAudio net audio st) =
        Failed (''Transcription failed. Details: '' @
          error_of ''callGeminiApi'' (snd (callGeminiApi net audio (apiKey st))) @
          ''; callWhisperApi: Whisper API not implemented.'' @
          ''; callDeepgramApi: Deepgram API not implemented.'')"
    by (simp add: gemini_failure_def aggregated_def)
next
  fix e
  assume "snd (callGeminiApi net audio (apiKey st)) = Inl e"
  then show "attempt (net (API_URL (apiKey st)) audio 2) = Inl e"
    by (rule gemini_last_error)
qed

theorem all_providers_fail_aggregated_witness:
  "fst (transcribeAudio quota_net ''UklGRg=='' bg_init) =
     Failed ''Transcription failed. Details: callGeminiApi: Quota exceeded; callWhisperApi: Whisper API not implemented.; callDeepgramApi: Deepgram API not implemented.'' \<and>
   attempt (quota_net (API_URL None) ''UklGRg=='' 2) = Inl ''Quota exceeded''"
proof -
  note T = all_providers_fail_aggregated [where ps = "[]" and audio = "''UklGRg==''" and st = bg_init
      and net = quota_net]
  have h: "\<not> provider_ok (snd (callGeminiApi quota_net ''UklGRg=='' (apiKey bg_init)))"
    by code_simp
  have g: "snd (callGeminiApi quota_net ''UklGRg=='' (apiKey bg_init)) = Inl ''Quota exceeded''"
    by code_simp
  have k: "apiKey bg_init = None" by (simp add: bg_init_def)
  from T [THEN conjunct2, rule_format, OF h]
  have "fst (transcribeAudio quota_net ''UklGRg=='' bg_init) =
        Failed (''Transcription failed. Details: '' @
          error_of ''callGeminiApi'' (snd (callGeminiApi quota_net ''UklGRg=='' (apiKey bg_init))) @
          ''; callWhisperApi: Whisper API not implemented.'' @
          ''; callDeepgramApi: Deepgram API not implemented.'')"
    and "\<forall>e. snd (callGeminiApi quota_net ''UklGRg=='' (apiKey bg_init)) = Inl e \<longrightarrow>
         attempt (quota_net (API_URL (apiKey bg_init)) ''UklGRg=='' 2) = Inl e"
    by blast+
  with g k show ?thesis by (simp add: error_of_def)
qed

subsection \<open>The placeholders\<close>

text \<open>
  Claim C10. \<^verbatim>\<open>callWhisperApi\<close> and \<^verbatim>\<open>callDeepgramApi\<close> throw for every chunk and key,
  without a request. A dispatch that yields a transcript has it from callGeminiApi and
  has called no other provider; a dispatch in which callGeminiApi yields no good result
  ends in the aggregated failure.
\<close>

theorem only_gemini_can_succeed:
  "callWhisperApi audio key = ([], Inl ''Whisper API not implemented.'') \<and>
   callDeepgramApi audio key = ([], Inl ''Deepgram API not implemented.'') \<and>
   (\<forall>t. fst (transcribeAudio net audio st) = Transcribed t \<longrightarrow>
      (\<exists>result. snd (callGeminiApi net audio (apiKey st)) = Inr result \<and>
         transcript_of result = Some t \<and> truthy t) \<and>
      invoked (since st (snd (transcribeAudio net audio st))) = [''callGeminiApi'']) \<and>
   (\<not> provider_ok (snd (callGeminiApi net audio (apiKey st))) \<longrightarrow>
      (\<exists>details. fst (transcribeAudio net audio st) =
         Failed (''Transcription failed. Details: '' @ details)))"
proof (intro conjI allI impI)
  show "callWhisperApi audio key = ([], Inl ''Whisper API not implemented.'')"
    by (simp add: callWhisperApi_def)
  show "callDeepgramApi audio key = ([], Inl ''Deepgram API not implemented.'')"
    by (simp add: callDeepgramApi_def)
next
  fix t
  assume tr: "fst (transcribeAudio net audio st) = Transcribed t"
  have ok: "provider_ok (snd (callGeminiApi net audio (apiKey st)))"
  proof (rule ccontr)
    assume "\<not> provider_ok (snd (callGeminiApi net audio (apiKey st)))"
    from transcribeAudio_fail(1) [OF this] tr show False by simp
  qed
  then obtain result t' where h: "snd (callGeminiApi net audio (apiKey st)) = Inr result"
    "transcript_of result = Some t'" "truthy t'"
    unfolding provider_ok_iff by blast
  from transcribeAudio_ok(1) [OF h] tr have "t' = t" by simp
  with h show "\<exists>result. snd (callGeminiApi net audio (apiKey st)) = Inr result \<and>
         transcript_of result = Some t \<and> truthy t" by blast
  show "invoked (since st (snd (transcribeAudio net audio st))) = [''callGeminiApi'']"
    by (simp add: since_transcribeAudio_ok [OF h])
next
  assume "\<not> provider_ok (snd (callGeminiApi net audio (apiKey st)))"
  from transcribeAudio_fail(1) [OF this]
  show "\<exists>details. fst (transcribeAudio net audio st) =
         Failed (''Transcription failed. Details: '' @ details)"
    by (simp add: gemini_failure_def aggregated_def)
qed

theorem only_gemini_can_succeed_witness:
  "(\<exists>result. snd (callGeminiApi hello_net ''UklGRg=='' (apiKey bg_init)) = Inr result \<and>
      transcript_of result = Some (JStr ''hello'') \<and> truthy (JStr ''hello'')) \<and>
   (\<exists>details. fst (transcribeAudio down_net ''UklGRg=='' bg_init) =
      Failed (''Transcription failed. Details: '' @ details))"
proof -
  have t: "fst (transcribeAudio hello_net ''UklGRg=='' bg_init) = Transcribed (JStr ''hello'')"
    by code_simp
  have h: "\<not> provider_ok (snd (callGeminiApi down_net ''UklGRg=='' (apiKey bg_init)))"
    by code_simp
  from only_gemini_can_succeed [where audio = "''UklGRg==''" and key = None and net = hello_net
      and st = bg_init] t
  have a: "\<exists>result. snd (callGeminiApi hello_net ''UklGRg=='' (apiKey bg_init)) = Inr result \<and>
      transcript_of result = Some (JStr ''hello'') \<and> truthy (JStr ''hello'')"
    by blast
  from only_gemini_can_succeed [where audio = "''UklGRg==''" and key = None and net = down_net
      and st = bg_init] h
  have b: "\<exists>details. fst (transcribeAudio down_net ''UklGRg=='' bg_init) =
      Failed (''Transcription failed. Details: '' @ details)"
    by blast
  from a b show ?thesis by blast
qed

section \<open>Properties of the offline queue\<close>

subsection \<open>Merging the effects of concurrent dispatches\<close>

lemma interleaving_scheduled: "interleaving ts l \<Longrightarrow> \<exists>sched. interleave sched ts = l"
proof (induction rule: interleaving.induct)
  case (finished ts)
  then have "interleave [] ts = []" by simp
  then show ?case by blast
next
  case (next_of i ts e es l)
  then obtain sched where "interleave sched (ts[i := es]) = l" by blast
  with next_of.hyps(1,2) have "interleave (i # sched) ts = e # l" by simp
  then show ?case by blast
qed

lemma mset_concat_update:
  assumes "i < length ts" and "ts ! i = e # es"
  shows "mset (concat ts) = add_mset e (mset (concat (ts[i := es])))"
proof -
  have "ts = take i ts @ (e # es) # drop (Suc i) ts"
    using assms by (metis id_take_nth_drop)
  moreover have "ts[i := es] = take i ts @ es # drop (Suc i) ts"
    using assms(1) by (rule upd_conv_take_nth_drop)
  ultimately have "concat ts = concat (take i ts) @ (e # es) @ concat (drop (Suc i) ts)"
    and "concat (ts[i := es]) = concat (take i ts) @ es @ concat (drop (Suc i) ts)"
    by (metis concat.simps(2) concat_append)+
  then show ?thesis by simp
qed

lemma mset_interleave: "mset (interleave sched ts) = mset (concat ts)"
proof (induction sched arbitrary: ts)
  case Nil
  show ?case by simp
next
  case (Cons i sched)
  show ?case
  proof (cases "i < length ts")
    case False
    with Cons.IH show ?thesis by simp
  next
    case True
    show ?thesis
    proof (cases "ts ! i")
      case Nil
      with True Cons.IH show ?thesis by simp
    next
      case (Cons e es)
      with True Cons.IH [of "ts[i := es]"] mset_concat_update [OF True Cons]
      show ?thesis by simp
    qed
  qed
qed

lemma subseq_nth_concat: "i < length ts \<Longrightarrow> subseq (ts ! i) (concat ts)"
proof -
  assume "i < length ts"
  then have "ts = take i ts @ ts ! i # drop (Suc i) ts" by (rule id_take_nth_drop)
  then have "concat ts = concat (take i ts) @ ts ! i @ concat (drop (Suc i) ts)"
    by (metis concat.simps(2) concat_append)
  moreover have "subseq (ts ! i) (ts ! i @ concat (drop (Suc i) ts))"
    by (rule subseq_rev_drop_many) simp
  then have "subseq (ts ! i) (concat (take i ts) @ ts ! i @ concat (drop (Suc i) ts))"
    by (rule subseq_drop_many)
  ultimately show ?thesis by simp
qed

lemma subseq_interleave: "i < length ts \<Longrightarrow> subseq (ts ! i) (interleave sched ts)"
proof (induction sched arbitrary: ts)
  case Nil
  then show ?case by (simp add: subseq_nth_concat)
next
  case (Cons j sched)
  show ?case
  proof (cases "j < length ts")
    case False
    with Cons show ?thesis by simp
  next
    case True
    show ?thesis
    proof (cases "ts ! j")
      case Nil
      with True Cons show ?thesis by simp
    next
      case c: (Cons e es)
      have len: "i < length (ts[j := es])" using Cons.prems by simp
      show ?thesis
      proof (cases "j = i")
        case True
        from Cons.IH [OF len] True Cons.prems
        have "subseq es (interleave sched (ts[j := es]))" by simp
        then have "subseq (e # es) (e # interleave sched (ts[j := es]))" by simp
        with c True \<open>j < length ts\<close> show ?thesis by simp
      next
        case False
        from Cons.IH [OF len] False
        have "subseq (ts ! i) (interleave sched (ts[j := es]))" by simp
        then have "subseq (ts ! i) (e # interleave sched (ts[j := es]))" by (rule list_emb_Cons)
        with c \<open>j < length ts\<close> show ?thesis by simp
      qed
    qed
  qed
qed

lemma mset_concat_map_cong:
  "mset xs = mset ys \<Longrightarrow> mset (concat (map f xs)) = mset (concat (map f ys))"
proof -
  have "\<And>zs. mset (concat (map f zs)) = (\<Sum>z\<in>#mset zs. mset (f z))"
  proof -
    fix zs show "mset (concat (map f zs)) = (\<Sum>z\<in>#mset zs. mset (f z))"
      by (induction zs) simp_all
  qed
  then show "mset xs = mset ys \<Longrightarrow> mset (concat (map f xs)) = mset (concat (map f ys))"
    by simp
qed

lemma log_fold_apply_effect:
  "log (fold apply_effect es st) = log st @ es \<and>
   key_offlineAudioQueue (local (fold apply_effect es st)) = key_offlineAudioQueue (local st) \<and>
   runtime_id (fold apply_effect es st) = runtime_id st"
proof (induction es arbitrary: st)
  case Nil
  show ?case by simp
next
  case (Cons e es)
  have "log (apply_effect e st) = log st @ [e]"
    "key_offlineAudioQueue (local (apply_effect e st)) = key_offlineAudioQueue (local st)"
    "runtime_id (apply_effect e st) = runtime_id st"
    by (simp_all add: apply_effect_def Let_def)
  with Cons [of "apply_effect e st"] show ?case by simp
qed

subsection \<open>One dispatch, and replaying its effects\<close>

lemma trace_cong:
  assumes "apiKey st' = apiKey st" "runtime_id st' = runtime_id st" "audioSource st' = audioSource st"
  shows "since st' (snd (transcribeAudio net a st')) = since st (snd (transcribeAudio net a st))"
proof (cases "provider_ok (snd (callGeminiApi net a (apiKey st)))")
  case True
  then obtain result t where h: "snd (callGeminiApi net a (apiKey st)) = Inr result"
    "transcript_of result = Some t" "truthy t"
    unfolding provider_ok_iff by blast
  from h have h': "snd (callGeminiApi net a (apiKey st')) = Inr result"
    "transcript_of result = Some t" "truthy t"
    by (simp_all add: assms)
  show ?thesis
    by (simp add: since_transcribeAudio_ok [OF h] since_transcribeAudio_ok [OF h'] assms)
next
  case False
  then have f': "\<not> provider_ok (snd (callGeminiApi net a (apiKey st')))" by (simp add: assms)
  show ?thesis
    by (simp add: since_transcribeAudio_fail [OF False] since_transcribeAudio_fail [OF f'] assms)
qed

lemma gemini_first_attempt: "count (mset (fetches (fst (callGeminiApi net a k)))) 0 = 1"
proof -
  from attempts_from_shape [of 0 3 "net (API_URL k) a" 1000]
  obtain n where n: "0 < n"
    "fetches (fst (attempts_from (net (API_URL k) a) 3 1000 0)) = [0..<n]"
    by auto
  have "distinct [0..<n]" by simp
  then have "count (mset [0..<n]) 0 = (if 0 \<in> set [0..<n] then 1 else 0)"
    unfolding distinct_count_atmost_1 by blast
  with n show ?thesis by (simp add: callGeminiApi_def callGeminiApi_with_def)
qed

lemma trace_facts:
  "dispatched (since st (snd (transcribeAudio net a st))) = [a] \<and>
   settled (since st (snd (transcribeAudio net a st))) = [a] \<and>
   Removed \<notin> set (since st (snd (transcribeAudio net a st))) \<and>
   count (mset (invoked (since st (snd (transcribeAudio net a st))))) ''callGeminiApi'' = 1 \<and>
   count (mset (fetches (since st (snd (transcribeAudio net a st))))) 0 = 1"
proof (cases "provider_ok (snd (callGeminiApi net a (apiKey st)))")
  case True
  then obtain result t where h: "snd (callGeminiApi net a (apiKey st)) = Inr result"
    "transcript_of result = Some t" "truthy t"
    unfolding provider_ok_iff by blast
  show ?thesis
    by (simp add: since_transcribeAudio_ok [OF h] gemini_first_attempt)
next
  case False
  show ?thesis
    by (simp add: since_transcribeAudio_fail [OF False] gemini_first_attempt)
qed

lemma dispatched_concat: "dispatched (concat ts) = concat (map dispatched ts)"
  by (induction ts) simp_all

lemma settled_concat: "settled (concat ts) = concat (map settled ts)"
  by (induction ts) simp_all

lemma invoked_concat: "invoked (concat ts) = concat (map invoked ts)"
  by (induction ts) simp_all

lemma fetches_concat: "fetches (concat ts) = concat (map fetches ts)"
  by (induction ts) simp_all

lemma count_concat_ones:
  "\<forall>t\<in>set ts. count (mset (f t)) x = 1 \<Longrightarrow> count (mset (concat (map f ts))) x = length ts"
  by (induction ts) simp_all

lemma fold_apply_requests:
  "\<forall>e\<in>set es. is_request e \<Longrightarrow> fold apply_effect es st = st\<lparr>log := log st @ es\<rparr>"
proof (induction es arbitrary: st)
  case Nil
  show ?case by simp
next
  case (Cons e es)
  from Cons.prems have "apply_effect e st = st\<lparr>log := log st @ [e]\<rparr>"
    by (cases e) (simp_all add: apply_effect_def Let_def)
  with Cons show ?case by simp
qed

lemma replay_transcribeAudio:
  "fold apply_effect (since st (snd (transcribeAudio net a st))) st = snd (transcribeAudio net a st)"
proof (cases "provider_ok (snd (callGeminiApi net a (apiKey st)))")
  case True
  then obtain result t where h: "snd (callGeminiApi net a (apiKey st)) = Inr result"
    "transcript_of result = Some t" "truthy t"
    unfolding provider_ok_iff by blast
  let ?st0 = "st\<lparr>log := log st @ [Dispatched a]\<rparr>"
  have sr: "callGeminiApi net a (apiKey ?st0) = (fst (callGeminiApi net a (apiKey st)), Inr result)"
    using h(1) by (simp add: prod_eq_iff)
  have eq: "try_services (services net) a [] ?st0 =
    (Transcribed t,
     updateStatus ''Recording''
       (if runtime_id ?st0
        then post (UpdateTranscript t (audioSource ?st0))
          (?st0\<lparr>log := log ?st0 @ Invoked ''callGeminiApi'' # fst (callGeminiApi net a (apiKey st))\<rparr>)
        else ?st0\<lparr>log := log ?st0 @ Invoked ''callGeminiApi'' # fst (callGeminiApi net a (apiKey st))\<rparr>))"
    unfolding services_def using sr h(2,3) by (rule try_services_step_ok)
  show ?thesis
    unfolding since_transcribeAudio_ok [OF h]
    unfolding transcribeAudio_def eq
    by (simp add: apply_effect_def fold_apply_requests [OF gemini_requests] updateStatus_def post_def)
next
  case False
  let ?st0 = "st\<lparr>log := log st @ [Dispatched a]\<rparr>"
  from services_all_fail [OF False]
  have "\<forall>p\<in>set (services net). \<not> provider_ok (snd (snd p a (apiKey ?st0)))" by simp
  note eq = try_services_all_fail [OF this, of "[]"]
  have m: "aggregated ([] @ map (\<lambda>p. error_of (fst p) (snd (snd p a (apiKey ?st0)))) (services net))
      = gemini_failure net a (apiKey st)"
    by (simp add: services_def gemini_failure_def error_of_def callWhisperApi_def callDeepgramApi_def)
  have l: "concat (map (service_log a (apiKey ?st0)) (services net)) =
      Invoked ''callGeminiApi'' # fst (callGeminiApi net a (apiKey st)) @
        [Invoked ''callWhisperApi'', Invoked ''callDeepgramApi'']"
    by (simp add: services_def service_log_pair callWhisperApi_def callDeepgramApi_def)
  show ?thesis
    unfolding since_transcribeAudio_fail [OF False]
    unfolding transcribeAudio_def eq m l
    by (simp add: apply_effect_def fold_apply_requests [OF gemini_requests] handleError_def
        bg_stopRecording_def post_def Let_def)
qed

subsection \<open>The drain\<close>

lemma concat_singletons: "concat (map (\<lambda>i. [q ! i]) [0..<length q]) = q"
  by (simp add: concat_map_singleton map_nth)

lemma drain_facts:
  assumes ts_def: "ts = map (\<lambda>i. since st1 (snd (transcribeAudio (nets i) (q ! i) st1))) [0..<length q]"
  shows "mset (dispatched (interleave sched ts)) = mset q"
    and "mset (settled (interleave sched ts)) = mset q"
    and "Removed \<notin> set (interleave sched ts)"
    and "count (mset (invoked (interleave sched ts))) ''callGeminiApi'' = length q"
    and "count (mset (fetches (interleave sched ts))) 0 = length q"
    and "i < length q \<Longrightarrow>
      subseq (since st1 (snd (transcribeAudio (nets i) (q ! i) st1))) (interleave sched ts)"
proof -
  let ?ts = ts
  let ?m = "interleave sched ?ts"
  have m: "mset ?m = mset (concat ?ts)" by (rule mset_interleave)
  have "mset (dispatched ?m) = mset (dispatched (concat ?ts))"
    unfolding dispatched_def using m by (rule mset_concat_map_cong)
  also have "dispatched (concat ?ts) = q"
    by (simp add: dispatched_concat ts_def comp_def trace_facts concat_singletons map_nth)
  finally show "mset (dispatched ?m) = mset q" .
  have "mset (settled ?m) = mset (settled (concat ?ts))"
    unfolding settled_def using m by (rule mset_concat_map_cong)
  also have "settled (concat ?ts) = q"
    by (simp add: settled_concat ts_def comp_def trace_facts concat_singletons map_nth)
  finally show "mset (settled ?m) = mset q" .
  have "Removed \<notin> set (concat ?ts)"
    by (simp add: ts_def trace_facts)
  then show "Removed \<notin> set ?m"
    using m by (metis set_mset_mset)
  have "mset (invoked ?m) = mset (invoked (concat ?ts))"
    unfolding invoked_def using m by (rule mset_concat_map_cong)
  moreover have "count (mset (concat (map invoked ?ts))) ''callGeminiApi'' = length ?ts"
    by (rule count_concat_ones) (simp add: ts_def trace_facts)
  ultimately show "count (mset (invoked ?m)) ''callGeminiApi'' = length q"
    by (simp add: invoked_concat ts_def)
  have "mset (fetches ?m) = mset (fetches (concat ?ts))"
    unfolding fetches_def using m by (rule mset_concat_map_cong)
  moreover have "count (mset (concat (map fetches ?ts))) 0 = length ?ts"
    by (rule count_concat_ones) (simp add: ts_def trace_facts)
  ultimately show "count (mset (fetches ?m)) 0 = length q"
    by (simp add: fetches_concat ts_def)
  show "subseq (since st1 (snd (transcribeAudio (nets i) (q ! i) st1))) ?m" if "i < length q"
  proof -
    from that have "i < length ?ts" and "?ts ! i = since st1 (snd (transcribeAudio (nets i) (q ! i) st1))"
      by (simp_all add: ts_def)
    with subseq_interleave [of i ?ts sched] show ?thesis by simp
  qed
qed

text \<open>
  Claim C3. A chunk that arrives while \<^verbatim>\<open>navigator.onLine\<close> is false is appended to the
  queue; nothing but the status message is posted, no dispatch begins, no provider is
  called and no request is made for it. After the handler of the \<^verbatim>\<open>online\<close> event the
  queue is empty, whatever the network does for each entry and in whatever order the
  dispatches run. When the queue was not empty the key is removed once, and before the
  removal every entry has been dispatched: for each entry all that \<^verbatim>\<open>transcribeAudio\<close>
  does for it with its network, from the call through the provider calls, requests and
  messages to the return, has happened in that order; callGeminiApi has been called and a
  first request made once for each entry; and the dispatches begun and the dispatches
  returned are the entries of the queue, each once, in some order. After the removal no
  dispatch begins or returns and no provider is called.
\<close>

theorem offline_chunks_queued_then_drained:
  "(let st' = handleAudioChunk False net chunk st
    in backlog st' = backlog st @ [chunk] \<and>
       since st st' = (if runtime_id st then [Posted (StatusUpdate ''Offline. Buffering audio...'')] else []) \<and>
       dispatched (since st st') = [] \<and> invoked (since st st') = [] \<and> fetches (since st st') = []) \<and>
   backlog (processOfflineQueue sched nets st) = [] \<and>
   (backlog st \<noteq> [] \<longrightarrow>
      (\<exists>pre post. since st (processOfflineQueue sched nets st) = pre @ Removed # post \<and>
         Removed \<notin> set pre \<and> Removed \<notin> set post \<and>
         dispatched post = [] \<and> settled post = [] \<and> invoked post = [] \<and> fetches post = [] \<and>
         mset (dispatched pre) = mset (backlog st) \<and> mset (settled pre) = mset (backlog st) \<and>
         count (mset (invoked pre)) ''callGeminiApi'' = length (backlog st) \<and>
         count (mset (fetches pre)) 0 = length (backlog st) \<and>
         (\<forall>i<length (backlog st).
            subseq (since st (snd (transcribeAudio (nets i) (backlog st ! i) st))) pre)))"
proof (intro conjI impI)
  show "let st' = handleAudioChunk False net chunk st
    in backlog st' = backlog st @ [chunk] \<and>
       since st st' = (if runtime_id st then [Posted (StatusUpdate ''Offline. Buffering audio...'')] else []) \<and>
       dispatched (since st st') = [] \<and> invoked (since st st') = [] \<and> fetches (since st st') = []"
    by (simp add: handleAudioChunk_def addToOfflineQueue_def backlog_def since_def Let_def
        updateStatus_def post_def)
next
  show "backlog (processOfflineQueue sched nets st) = []"
  proof (cases "backlog st = []")
    case True
    then show ?thesis by (simp add: processOfflineQueue_def backlog_def Let_def)
  next
    case False
    then show ?thesis
      by (simp add: processOfflineQueue_def backlog_def Let_def)
  qed
next
  assume ne: "backlog st \<noteq> []"
  let ?q = "backlog st"
  let ?st1 = "updateStatus (''Syncing '' @ decimal (length ?q) @ '' offline chunk(s)...'') st"
  define ts where "ts = map (\<lambda>i. since ?st1 (snd (transcribeAudio (nets i) (?q ! i) ?st1))) [0..<length ?q]"
  let ?m = "interleave sched ts"
  let ?st2 = "fold apply_effect ?m ?st1"
  note d = drain_facts [OF ts_def, where sched = sched]
  from log_fold_apply_effect [of ?m ?st1]
  have l2: "log ?st2 = log ?st1 @ ?m" and r: "runtime_id ?st2 = runtime_id ?st1" by simp_all
  let ?pre = "(if runtime_id st
      then [Posted (StatusUpdate (''Syncing '' @ decimal (length ?q) @ '' offline chunk(s)...''))]
      else []) @ ?m"
  let ?post = "(if runtime_id st then [Posted (StatusUpdate ''Recording'')] else [])"
  have q: "(case key_offlineAudioQueue (local st) of None \<Rightarrow> [] | Some q \<Rightarrow> q) = backlog st"
    by (simp add: backlog_def)
  have "log (processOfflineQueue sched nets st) = log st @ ?pre @ Removed # ?post"
    unfolding processOfflineQueue_def q Let_def ts_def [symmetric]
    using ne l2 r by (simp)
  then have s: "since st (processOfflineQueue sched nets st) = ?pre @ Removed # ?post"
    by (rule since_append)
  have p: "Removed \<notin> set ?pre" "Removed \<notin> set ?post" "dispatched ?post = []" "settled ?post = []"
    "invoked ?post = []" "fetches ?post = []"
    "mset (dispatched ?pre) = mset ?q" "mset (settled ?pre) = mset ?q"
    "count (mset (invoked ?pre)) ''callGeminiApi'' = length ?q"
    "count (mset (fetches ?pre)) 0 = length ?q"
    using d(1-5) by simp_all
  have e: "\<forall>i<length ?q. subseq (since st (snd (transcribeAudio (nets i) (?q ! i) st))) ?pre"
  proof (intro allI impI)
    fix i assume "i < length ?q"
    have eq: "since ?st1 (snd (transcribeAudio (nets i) (?q ! i) ?st1)) =
        since st (snd (transcribeAudio (nets i) (?q ! i) st))"
      by (rule trace_cong) simp_all
    from d(6) [OF \<open>i < length ?q\<close>]
    have "subseq (since st (snd (transcribeAudio (nets i) (?q ! i) st))) ?m"
      unfolding eq .
    then show "subseq (since st (snd (transcribeAudio (nets i) (?q ! i) st))) ?pre"
      by (rule subseq_drop_many)
  qed
  from s p e show "\<exists>pre post. since st (processOfflineQueue sched nets st) = pre @ Removed # post \<and>
         Removed \<notin> set pre \<and> Removed \<notin> set post \<and>
         dispatched post = [] \<and> settled post = [] \<and> invoked post = [] \<and> fetches post = [] \<and>
         mset (dispatched pre) = mset (backlog st) \<and> mset (settled pre) = mset (backlog st) \<and>
         count (mset (invoked pre)) ''callGeminiApi'' = length (backlog st) \<and>
         count (mset (fetches pre)) 0 = length (backlog st) \<and>
         (\<forall>i<length (backlog st).
            subseq (since st (snd (transcribeAudio (nets i) (backlog st ! i) st))) pre)"
    by blast
qed

theorem offline_chunks_queued_then_drained_witness:
  "backlog (handleAudioChunk False down_net ''first'' bg_init) = [''first''] \<and>
   backlog two_queued = [''first'', ''second''] \<and>
   backlog (processOfflineQueue second_first mixed_nets two_queued) = [] \<and>
   settled (since two_queued (processOfflineQueue second_first mixed_nets two_queued))
     = [''second'', ''first''] \<and>
   (\<exists>pre post. since two_queued (processOfflineQueue second_first mixed_nets two_queued)
        = pre @ Removed # post \<and>
      mset (settled pre) = mset [''first'', ''second''] \<and> Removed \<notin> set pre \<and>
      count (mset (invoked pre)) ''callGeminiApi'' = 2 \<and>
      subseq (since two_queued (snd (transcribeAudio down_net ''first'' two_queued))) pre \<and>
      subseq (since two_queued (snd (transcribeAudio hello_net ''second'' two_queued))) pre)"
proof -
  have b0: "backlog bg_init = []" by code_simp
  have b: "backlog two_queued = [''first'', ''second'']" by code_simp
  have o: "settled (since two_queued (processOfflineQueue second_first mixed_nets two_queued))
     = [''second'', ''first'']" by code_simp
  have n: "mixed_nets 0 = down_net" "mixed_nets (Suc 0) = hello_net"
    by (simp_all add: mixed_nets_def)
  from offline_chunks_queued_then_drained [where net = down_net and chunk = "''first''"
      and st = bg_init and sched = second_first and nets = mixed_nets] b0
  have one: "backlog (handleAudioChunk False down_net ''first'' bg_init) = [''first'']"
    by (simp add: Let_def)
  note T = offline_chunks_queued_then_drained [where net = down_net and chunk = "''first''"
      and st = two_queued and sched = second_first and nets = mixed_nets]
  from T have two: "backlog (processOfflineQueue second_first mixed_nets two_queued) = []"
    by blast
  from T b obtain pre post where
    pp: "since two_queued (processOfflineQueue second_first mixed_nets two_queued) = pre @ Removed # post"
      "Removed \<notin> set pre" "mset (settled pre) = mset (backlog two_queued)"
      "count (mset (invoked pre)) ''callGeminiApi'' = length (backlog two_queued)"
      "\<forall>i<length (backlog two_queued).
            subseq (since two_queued (snd (transcribeAudio (mixed_nets i) (backlog two_queued ! i) two_queued))) pre"
    by auto
  from pp(5) [rule_format, of 0] pp(5) [rule_format, of "Suc 0"] b n
  have "subseq (since two_queued (snd (transcribeAudio down_net ''first'' two_queued))) pre"
    "subseq (since two_queued (snd (transcribeAudio hello_net ''second'' two_queued))) pre"
    by simp_all
  with pp(1-4) b have three: "\<exists>pre post. since two_queued (processOfflineQueue second_first mixed_nets two_queued)
        = pre @ Removed # post \<and>
      mset (settled pre) = mset [''first'', ''second''] \<and> Removed \<notin> set pre \<and>
      count (mset (invoked pre)) ''callGeminiApi'' = 2 \<and>
      subseq (since two_queued (snd (transcribeAudio down_net ''first'' two_queued))) pre \<and>
      subseq (since two_queued (snd (transcribeAudio hello_net ''second'' two_queued))) pre"
    by auto
  from one b two o three show ?thesis by blast
qed

section \<open>Properties of the session\<close>

subsection \<open>A start while a session is running\<close>

text \<open>
  Claim C4 as stated fails: a session is recording, with a start time and one transcript
  entry persisted; a start request at time 9000 is answered with success, and the start
  time and the transcript are overwritten.
\<close>

theorem start_while_recording_accepted:
  "key_recordingState (local (snd one_transcribed)) = Some recording \<and>
   key_startTime (local (snd one_transcribed)) = Some 1000 \<and>
   key_transcript (local (snd one_transcribed)) =
     Some [\<lparr>timestamp = 3000, entry_text = JStr ''hello'', source = mic\<rparr>] \<and>
   fst (onMessage (env_at 9000) (startRecording_request (Some ''k'') mic) (snd one_transcribed))
     = Some Success \<and>
   key_startTime (local (snd (onMessage (env_at 9000) (startRecording_request (Some ''k'') mic)
     (snd one_transcribed)))) = Some 9000 \<and>
   key_transcript (local (snd (onMessage (env_at 9000) (startRecording_request (Some ''k'') mic)
     (snd one_transcribed)))) = Some []"
  by code_simp

text \<open>
  Claim C4, amended. The service worker does not reject a start request: whatever is
  persisted, when the set-up succeeds it answers success and persists the state
  recording, the start time of the request and an empty transcript. The offscreen
  document ignores a start while its recorder is recording or paused and leaves its
  state as it is. The popup's start/stop control, while its session is recording or
  paused, sends the stop request and no start request.
\<close>

theorem start_not_rejected:
  "(setup_failure env = None \<longrightarrow>
      src = mic \<or> (\<exists>tabId sid. activeTab env = Some tabId \<and> streamId env = Inr sid) \<longrightarrow>
      fst (onMessage env (startRecording_request key src) st) = Some Success \<and>
      key_recordingState (local (snd (onMessage env (startRecording_request key src) st)))
        = Some recording \<and>
      key_startTime (local (snd (onMessage env (startRecording_request key src) st)))
        = Some (now env) \<and>
      key_transcript (local (snd (onMessage env (startRecording_request key src) st))) = Some []) \<and>
   (mediaRecorder off = Some Recording \<or> mediaRecorder off = Some Paused \<longrightarrow>
      startRecording media off = off) \<and>
   (recordingState p = recording \<or> recordingState p = paused \<longrightarrow>
      recordingState (fst (handleStartStop c env t (p, bg))) = idle \<and>
      since bg (snd (handleStartStop c env t (p, bg))) =
        (if runtime_id bg then [Posted StopOffscreenRecording, Posted RecordingStopped] else []))"
proof (intro conjI impI)
  assume "setup_failure env = None"
    and "src = mic \<or> (\<exists>tabId sid. activeTab env = Some tabId \<and> streamId env = Inr sid)"
  then have "bg_startRecording env (st\<lparr>apiKey := key, audioSource := src\<rparr>) =
      (None, (post (StartOffscreenRecording (case src of tab \<Rightarrow> (case streamId env of Inr sid \<Rightarrow> Some sid | Inl m \<Rightarrow> None) | mic \<Rightarrow> None) src)
         (st\<lparr>apiKey := key, audioSource := src,
              capturedTabId := (case src of tab \<Rightarrow> activeTab env | mic \<Rightarrow> capturedTabId st)\<rparr>))
         \<lparr>local := (local st)\<lparr>key_recordingState := Some recording,
             key_startTime := Some (now env), key_transcript := Some []\<rparr>\<rparr>)"
    by (cases src) (auto simp: bg_startRecording_def Let_def post_def)
  then show "fst (onMessage env (startRecording_request key src) st) = Some Success"
    and "key_recordingState (local (snd (onMessage env (startRecording_request key src) st)))
        = Some recording"
    and "key_startTime (local (snd (onMessage env (startRecording_request key src) st)))
        = Some (now env)"
    and "key_transcript (local (snd (onMessage env (startRecording_request key src) st))) = Some []"
    by simp_all
next
  assume "mediaRecorder off = Some Recording \<or> mediaRecorder off = Some Paused"
  then show "startRecording media off = off"
    by (auto simp: startRecording_def)
next
  assume a: "recordingState p = recording \<or> recordingState p = paused"
  then show "recordingState (fst (handleStartStop c env t (p, bg))) = idle"
    by (auto simp: handleStartStop_def Let_def stopTimer_def)
  from a have "log (snd (handleStartStop c env t (p, bg))) = log bg @
      (if runtime_id bg then [Posted StopOffscreenRecording, Posted RecordingStopped] else [])"
    by (auto simp: handleStartStop_def Let_def bg_stopRecording_def post_def)
  then show "since bg (snd (handleStartStop c env t (p, bg))) =
      (if runtime_id bg then [Posted StopOffscreenRecording, Posted RecordingStopped] else [])"
    by (rule since_append)
qed

theorem start_not_rejected_witness:
  "fst (onMessage (env_at 9000) (startRecording_request (Some ''k'') mic) (snd one_transcribed))
     = Some Success \<and>
   key_transcript (local (snd (onMessage (env_at 9000) (startRecording_request (Some ''k'') mic)
     (snd one_transcribed)))) = Some [] \<and>
   startRecording None (step (Tick (- 30)) engine_init) = step (Tick (- 30)) engine_init \<and>
   recordingState (fst (handleStartStop mic_controls (env_at 9000) 9000 one_transcribed)) = idle"
proof -
  note T = start_not_rejected [where env = "env_at 9000" and src = mic and key = "Some ''k''"
      and st = "snd one_transcribed" and off = "step (Tick (- 30)) engine_init" and media = None
      and p = "fst one_transcribed" and c = mic_controls and t = 9000 and bg = "snd one_transcribed"]
  have h1: "setup_failure (env_at 9000) = None" by (simp add: env_at_def)
  have h2: "mediaRecorder (step (Tick (- 30)) engine_init) = Some Recording" by code_simp
  have h3: "recordingState (fst one_transcribed) = recording" by code_simp
  from T h1 h2 h3 show ?thesis by simp
qed

subsection \<open>Pause and resume\<close>

text \<open>
  Claim C9 as stated fails: in a session that has recorded for five seconds the persisted
  \<^verbatim>\<open>secondsElapsed\<close> is still the 0 written at the start; pause and resume at one and the
  same time leave it at 5.
\<close>

theorem pause_rewrites_persisted_seconds:
  "recordingState (fst five_seconds_in) = recording \<and>
   key_secondsElapsed (local (snd five_seconds_in)) = Some 0 \<and>
   key_secondsElapsed (local (snd
     (handlePauseResume (env_at 6000) 6000 (handlePauseResume (env_at 6000) 6000 five_seconds_in))))
     = Some 5"
  by code_simp

text \<open>
  Claim C9, amended. In a session that is recording, pause followed by resume leaves the
  popup's counter \<^verbatim>\<open>secondsElapsed\<close> unchanged and the session recording; the persisted
  \<^verbatim>\<open>secondsElapsed\<close> is then that counter's value, which pause writes and resume does
  not touch.
\<close>

theorem pause_resume_keeps_counter:
  assumes "recordingState p = recording"
  shows "secondsElapsed (fst (handlePauseResume env' t (handlePauseResume env t (p, bg))))
      = secondsElapsed p \<and>
    key_secondsElapsed (local (snd (handlePauseResume env' t (handlePauseResume env t (p, bg)))))
      = Some (secondsElapsed p) \<and>
    recordingState (fst (handlePauseResume env' t (handlePauseResume env t (p, bg)))) = recording"
  using assms
  by (simp add: handlePauseResume_def Let_def stopTimer_def startTimer_def post_def)

theorem pause_resume_keeps_counter_witness:
  "recordingState (fst five_seconds_in) = recording \<and>
   secondsElapsed (fst (handlePauseResume (env_at 6000) 6000
     (handlePauseResume (env_at 6000) 6000 five_seconds_in))) = 5 \<and>
   key_secondsElapsed (local (snd (handlePauseResume (env_at 6000) 6000
     (handlePauseResume (env_at 6000) 6000 five_seconds_in)))) = Some 5"
proof -
  have h: "recordingState (fst five_seconds_in) = recording" by code_simp
  have s: "secondsElapsed (fst five_seconds_in) = 5" by code_simp
  from pause_resume_keeps_counter [OF h, where env = "env_at 6000" and t = 6000
      and env' = "env_at 6000" and bg = "snd five_seconds_in"] h s
  show ?thesis by simp
qed

end
